theory Spec2Isabelle
  imports Complex_Main
begin

section \<open>Route analysis and climb scoring of the race profile analyzer\<close>

text \<open>
  The repository holds three variants of the same React component. Two of them are
  embedded here:
  \<^item> \<^verbatim>\<open>src/pages/PCS profiler.jsx\<close>: \<open>analyzeRoute\<close> with the guard on \<open>lengthKm\<close>,
    the climb \<open>id\<close>, \<open>maxGradient\<close> and the final sort;
  \<^item> the first component of \<^verbatim>\<open>src/unnamed/part_000\<close>: \<open>analyzeRoute\<close> with the
    climb weighting (\<open>tpvClimbWeighting\<close>), called \<open>analyzeRoute_tpv\<close> here.
  The chunking loop and the climb aggregation are the same text in both.

  JavaScript numbers are modelled as real numbers: rounding, \<open>NaN\<close> and the infinities
  are outside the model. Where the source could divide by zero the model says so. The
  one place where rounding changes what is claimed is the gain of a climb: it is
  modelled a second time in binary64, with every subtraction and addition rounded as
  the code rounds it.
\<close>

subsection \<open>Data\<close>

text \<open>A track point of the GPX document: the two attributes, and the text of the
  \<open>ele\<close> tag when there is one.\<close>

record trkpt =
  attr_lat :: real
  attr_lon :: real
  ele_text :: "real option"

text \<open>\<open>{ lat, lon, ele }\<close> and, extended, \<open>{ ...p, dist }\<close>.\<close>

record rawPoint =
  lat :: real
  lon :: real
  ele :: real

record point = rawPoint +
  dist_p :: real

record baseData =
  points_b :: "point list"
  distance :: real

text \<open>A chunk as pushed by the first loop of \<open>analyzeRoute\<close>.\<close>

record chunk =
  startDist :: real
  endDist :: real
  gradient :: real
  gain :: real
  startEle :: real
  endEle :: real

text \<open>\<open>currentClimb\<close>: an open or closed climb before scoring.\<close>

record segment =
  startDist_c :: real
  endDist_c :: real
  gain_c :: real
  chunks_c :: "chunk list"

text \<open>\<open>{ ...c, lengthKm, gradientAvg, rawScore, multiplier, finalScore, distFromFinish }\<close>:
  the scored climb of \<^verbatim>\<open>part_000\<close>.\<close>

record scored = segment +
  lengthKm :: real
  gradientAvg :: real
  rawScore :: real
  multiplier :: real
  finalScore :: real
  distFromFinish :: real

text \<open>The scored climb of \<^verbatim>\<open>PCS profiler.jsx\<close> has three more fields. \<open>Math.max\<close> of
  no arguments is \<open>-Infinity\<close>, which is \<open>None\<close> here.\<close>

record climb = scored +
  id_c :: nat
  name_c :: string
  maxGradient :: "real option"

text \<open>\<open>TypeError\<close>: a field read on \<open>undefined\<close>. \<open>NonFinite\<close>: a division by zero, whose
  result (\<open>Infinity\<close> or \<open>NaN\<close>) is not a real number.\<close>

datatype js_error = TypeError | NonFinite

record fileData =
  points_f :: "point list"
  totalDistance_f :: real
  totalClimbing_f :: real
  totalGain_f :: real
  maxEle_f :: real
  minEle_f :: real
  climbs_f :: "climb list"
  totalScore_f :: real
  finalProfileScore_f :: real

record fileData_tpv =
  points_t :: "point list"
  totalDistance_t :: real
  totalClimbing_t :: real
  totalGain_t :: real
  maxEle_t :: real
  minEle_t :: real
  climbs_t :: "scored list"
  totalScore_t :: real
  finalProfileScore_t :: real
  tpvClimbWeighting :: real
  overallMetric :: real
  finalZoneMetric :: real

subsection \<open>Chunking\<close>

definition CHUNK_SIZE :: real where
  "CHUNK_SIZE = 0.2"

text \<open>\<open>while (j < points.length && points[j].dist - start.dist < CHUNK_SIZE) j++\<close>\<close>

function findChunkEnd :: "point list \<Rightarrow> point \<Rightarrow> nat \<Rightarrow> nat" where
  "findChunkEnd points start j =
     (if j < length points \<and> dist_p (points ! j) - dist_p start < CHUNK_SIZE
      then findChunkEnd points start (j + 1) else j)"
  by pat_completeness auto
termination
  by (relation "measure (\<lambda>(points, start, j). length points - j)") auto

declare findChunkEnd.simps [simp del]

lemma findChunkEnd_ge: "j \<le> findChunkEnd points start j"
proof (induction points start j rule: findChunkEnd.induct)
  case (1 points start j)
  show ?case
  proof (cases "j < length points \<and> dist_p (points ! j) - dist_p start < CHUNK_SIZE")
    case True
    with "1.IH" have "j + 1 \<le> findChunkEnd points start (j + 1)" by simp
    with True show ?thesis by (subst findChunkEnd.simps) simp
  next
    case False
    then show ?thesis by (subst findChunkEnd.simps) auto
  qed
qed

text \<open>The chunk between two points. The differences are exact here; the code rounds
  them (\<open>chunkGain64\<close> below is the rounded gain).\<close>

definition mkChunk :: "point \<Rightarrow> point \<Rightarrow> chunk" where
  "mkChunk start end =
     (let dist = dist_p end - dist_p start;
          gain = ele end - ele start;
          gradient = (gain / (dist * 1000)) * 100
      in \<lparr> startDist = dist_p start, endDist = dist_p end, gradient = gradient,
           gain = gain, startEle = ele start, endEle = ele end \<rparr>)"

text \<open>The \<open>for\<close> loop over \<open>i\<close>: when a chunk is pushed, \<open>i = j - 1\<close> and the loop's
  \<open>i++\<close> resume at \<open>j\<close>; otherwise the loop goes on at \<open>i + 1\<close>.\<close>

function chunkLoop :: "point list \<Rightarrow> nat \<Rightarrow> chunk list \<Rightarrow> chunk list" where
  "chunkLoop points i chunks =
     (if i < length points then
        (let start = points ! i;
             j = findChunkEnd points start (i + 1)
         in if j < length points
            then chunkLoop points ((j - 1) + 1) (chunks @ [mkChunk start (points ! j)])
            else chunkLoop points (i + 1) chunks)
      else chunks)"
  by pat_completeness auto
termination
proof (relation "measure (\<lambda>(points, i, chunks). length points - i)")
  show "wf (measure (\<lambda>(points, i, chunks). length points - i))" by simp
next
  fix points :: "point list" and i :: nat and chunks :: "chunk list" and start j
  assume "i < length points" "start = points ! i"
    "j = findChunkEnd points start (i + 1)" "j < length points"
  moreover have "i + 1 \<le> findChunkEnd points (points ! i) (i + 1)"
    by (rule findChunkEnd_ge)
  ultimately show "((points, j - 1 + 1, chunks @ [mkChunk start (points ! j)]), (points, i, chunks))
      \<in> measure (\<lambda>(points, i, chunks). length points - i)"
    by simp
next
  fix points :: "point list" and i :: nat and chunks :: "chunk list" and start j
  assume "i < length points"
  then show "((points, i + 1, chunks), (points, i, chunks))
      \<in> measure (\<lambda>(points, i, chunks). length points - i)"
    by simp
qed

declare chunkLoop.simps [simp del]

definition chunkRoute :: "point list \<Rightarrow> chunk list" where
  "chunkRoute points = chunkLoop points 0 []"

subsection \<open>Aggregating chunks into climbs\<close>

definition isUphill :: "chunk \<Rightarrow> bool" where
  "isUphill chunk = (gradient chunk > 1.5)"

text \<open>The body of \<open>chunks.forEach\<close>, on the pair \<open>(climbs, currentClimb)\<close>. The sum
  \<open>gain_c c + gain chunk\<close> is exact here; the code rounds it (\<open>climbGain64\<close> below).\<close>

definition climbStep :: "segment list \<times> segment option \<Rightarrow> chunk \<Rightarrow> segment list \<times> segment option" where
  "climbStep st chunk =
     (case st of (climbs, currentClimb) \<Rightarrow>
        if isUphill chunk then
          (case currentClimb of
             None \<Rightarrow>
               (climbs, Some \<lparr> startDist_c = startDist chunk, endDist_c = endDist chunk,
                               gain_c = gain chunk, chunks_c = [chunk] \<rparr>)
           | Some c \<Rightarrow>
               (climbs, Some (c\<lparr> endDist_c := endDist chunk,
                                 gain_c := gain_c c + gain chunk,
                                 chunks_c := chunks_c c @ [chunk] \<rparr>)))
        else
          (case currentClimb of
             Some c \<Rightarrow> (climbs @ [c], None)
           | None \<Rightarrow> (climbs, None)))"

text \<open>\<open>if (currentClimb) climbs.push(currentClimb)\<close> after the loop.\<close>

definition flushClimb :: "segment list \<times> segment option \<Rightarrow> segment list" where
  "flushClimb st =
     (case st of (climbs, currentClimb) \<Rightarrow>
        (case currentClimb of Some c \<Rightarrow> climbs @ [c] | None \<Rightarrow> climbs))"

definition detectClimbs :: "chunk list \<Rightarrow> segment list" where
  "detectClimbs chunks = flushClimb (foldl climbStep ([], None) chunks)"

subsection \<open>Scoring, \<^verbatim>\<open>PCS profiler.jsx\<close>\<close>

text \<open>\<open>Math.max(...xs)\<close>\<close>

definition Math_max :: "real list \<Rightarrow> real option" where
  "Math_max xs = (case xs of [] \<Rightarrow> None | x # r \<Rightarrow> Some (fold max r x))"

definition Math_min :: "real list \<Rightarrow> real option" where
  "Math_min xs = (case xs of [] \<Rightarrow> None | x # r \<Rightarrow> Some (fold min r x))"

text \<open>The callback of \<open>.map((c, index) => ...)\<close>.\<close>

definition scoreClimb :: "real \<Rightarrow> segment \<Rightarrow> nat \<Rightarrow> climb" where
  "scoreClimb totalDistance c index =
     (let lengthKm = endDist_c c - startDist_c c;
          gradientAvg = (if lengthKm > 0 then (gain_c c / (lengthKm * 1000)) * 100 else 0);
          maxGradient = Math_max (map gradient (chunks_c c));
          rawScore = (gradientAvg / 2) ^ 2 * lengthKm;
          distFromFinish = totalDistance - endDist_c c;
          multiplier =
            (if distFromFinish \<le> 10 then 1.0
             else if distFromFinish \<le> 25 then 0.8
             else if distFromFinish \<le> 50 then 0.6
             else if distFromFinish \<le> 75 then 0.4
             else 0.2)
      in \<lparr> startDist_c = startDist_c c, endDist_c = endDist_c c, gain_c = gain_c c,
           chunks_c = chunks_c c,
           lengthKm = lengthKm, gradientAvg = gradientAvg, rawScore = rawScore,
           multiplier = multiplier, finalScore = rawScore * multiplier,
           distFromFinish = distFromFinish,
           id_c = index + 1, name_c = [], maxGradient = maxGradient \<rparr>)"

text \<open>\<open>climbs.filter(c => c.gain > 20).map(...).sort((a, b) => a.startDist - b.startDist)\<close>;
  the sort of an array is stable.\<close>

definition validClimbs :: "real \<Rightarrow> segment list \<Rightarrow> climb list" where
  "validClimbs totalDistance climbs =
     sort_key startDist_c
       (map (\<lambda>(index, c). scoreClimb totalDistance c index)
          (enumerate 0 (filter (\<lambda>c. gain_c c > 20) climbs)))"

text \<open>\<open>for (let i = 1; i < points.length; i++)\<close>, summing the positive steps.\<close>

function climbingLoop :: "point list \<Rightarrow> nat \<Rightarrow> real \<Rightarrow> real" where
  "climbingLoop points i totalClimbing =
     (if i < length points then
        (let elevationChange = ele (points ! i) - ele (points ! (i - 1))
         in climbingLoop points (i + 1)
              (if elevationChange > 0 then totalClimbing + elevationChange else totalClimbing))
      else totalClimbing)"
  by pat_completeness auto
termination
  by (relation "measure (\<lambda>(points, i, totalClimbing). length points - i)") auto

declare climbingLoop.simps [simp del]

text \<open>On an empty array \<open>points[points.length-1].ele\<close> reads a field of \<open>undefined\<close>.\<close>

definition analyzeRoute :: "point list \<Rightarrow> real \<Rightarrow> js_error + fileData" where
  "analyzeRoute points totalDistance =
     (let chunks = chunkRoute points;
          climbs = detectClimbs chunks;
          validClimbs = validClimbs totalDistance climbs;
          totalScore = foldl (\<lambda>acc c. acc + finalScore c) 0 validClimbs;
          finalZoneStart = totalDistance - 25;
          finalClimbs = filter (\<lambda>c. endDist_c c \<ge> finalZoneStart) validClimbs;
          finalProfileScore = foldl (\<lambda>acc c. acc + finalScore c) 0 finalClimbs;
          totalClimbing = climbingLoop points 1 0
      in case (Math_max (map ele points), Math_min (map ele points)) of
           (Some maxEle, Some minEle) \<Rightarrow>
             Inr \<lparr> points_f = points, totalDistance_f = totalDistance,
                   totalClimbing_f = totalClimbing,
                   totalGain_f = ele (last points) - ele (hd points),
                   maxEle_f = maxEle, minEle_f = minEle,
                   climbs_f = validClimbs, totalScore_f = totalScore,
                   finalProfileScore_f = finalProfileScore \<rparr>
         | _ \<Rightarrow> Inl TypeError)"

subsection \<open>Scoring and climb weighting, \<^verbatim>\<open>part_000\<close>\<close>

text \<open>The callback of \<open>.map(c => ...)\<close>: no guard on \<open>lengthKm\<close> here.\<close>

definition scoreClimb_tpv :: "real \<Rightarrow> segment \<Rightarrow> scored" where
  "scoreClimb_tpv totalDistance c =
     (let lengthKm = endDist_c c - startDist_c c;
          gradientAvg = (gain_c c / (lengthKm * 1000)) * 100;
          rawScore = (gradientAvg / 2) ^ 2 * lengthKm;
          distFromFinish = totalDistance - endDist_c c;
          multiplier =
            (if distFromFinish \<le> 10 then 1.0
             else if distFromFinish \<le> 25 then 0.8
             else if distFromFinish \<le> 50 then 0.6
             else if distFromFinish \<le> 75 then 0.4
             else 0.2)
      in \<lparr> startDist_c = startDist_c c, endDist_c = endDist_c c, gain_c = gain_c c,
           chunks_c = chunks_c c,
           lengthKm = lengthKm, gradientAvg = gradientAvg, rawScore = rawScore,
           multiplier = multiplier, finalScore = rawScore * multiplier,
           distFromFinish = distFromFinish \<rparr>)"

definition validClimbs_tpv :: "real \<Rightarrow> segment list \<Rightarrow> scored list" where
  "validClimbs_tpv totalDistance climbs =
     map (scoreClimb_tpv totalDistance) (filter (\<lambda>c. gain_c c > 20) climbs)"

text \<open>A retained climb of length zero makes \<open>gradientAvg\<close> a division by zero.\<close>

definition analyzeRoute_tpv :: "point list \<Rightarrow> real \<Rightarrow> js_error + fileData_tpv" where
  "analyzeRoute_tpv points totalDistance =
     (let chunks = chunkRoute points;
          climbs = detectClimbs chunks;
          validClimbs = validClimbs_tpv totalDistance climbs;
          totalScore = foldl (\<lambda>acc c. acc + finalScore c) 0 validClimbs;
          finalZoneStart = totalDistance - 25;
          finalClimbs = filter (\<lambda>c. endDist_c c \<ge> finalZoneStart) validClimbs;
          finalProfileScore = foldl (\<lambda>acc c. acc + finalScore c) 0 finalClimbs;
          overallMetric = totalScore / 100;
          finalZoneRatioUncapped = (if totalDistance > 0 then finalProfileScore / 25 else 0);
          finalZoneMetricCapped = min finalZoneRatioUncapped 0.8;
          tpvClimbWeightingRatio =
            (if totalDistance > 0 \<and> totalDistance < 20 then totalScore / totalDistance
             else max overallMetric finalZoneMetricCapped);
          tpvClimbWeighting = min (tpvClimbWeightingRatio * 100) 100;
          totalClimbing = climbingLoop points 1 0
      in if \<exists>c \<in> set validClimbs. lengthKm c = 0 then Inl NonFinite
         else case (Math_max (map ele points), Math_min (map ele points)) of
           (Some maxEle, Some minEle) \<Rightarrow>
             Inr \<lparr> points_t = points, totalDistance_t = totalDistance,
                   totalClimbing_t = totalClimbing,
                   totalGain_t = ele (last points) - ele (hd points),
                   maxEle_t = maxEle, minEle_t = minEle,
                   climbs_t = validClimbs, totalScore_t = totalScore,
                   finalProfileScore_t = finalProfileScore,
                   tpvClimbWeighting = tpvClimbWeighting,
                   overallMetric = overallMetric,
                   finalZoneMetric = finalZoneMetricCapped \<rparr>
         | _ \<Rightarrow> Inl TypeError)"

subsection \<open>Building the track: \<open>processGPX\<close>\<close>

text \<open>\<open>Math.atan2(y, x)\<close>\<close>

definition atan2 :: "real \<Rightarrow> real \<Rightarrow> real" where
  "atan2 y x =
     (if x > 0 then arctan (y / x)
      else if x < 0 \<and> y \<ge> 0 then arctan (y / x) + pi
      else if x < 0 then arctan (y / x) - pi
      else if y > 0 then pi / 2
      else if y < 0 then - (pi / 2)
      else 0)"

definition haversineDistance :: "real \<Rightarrow> real \<Rightarrow> real \<Rightarrow> real \<Rightarrow> real" where
  "haversineDistance lat1 lon1 lat2 lon2 =
     (let R = 6371;
          dLat = (lat2 - lat1) * (pi / 180);
          dLon = (lon2 - lon1) * (pi / 180);
          a = sin (dLat / 2) * sin (dLat / 2) +
              cos (lat1 * (pi / 180)) * cos (lat2 * (pi / 180)) *
              sin (dLon / 2) * sin (dLon / 2);
          c = 2 * atan2 (sqrt a) (sqrt (1 - a))
      in R * c)"

text \<open>The moving average: the window of \<open>i\<close> runs from \<open>max(0, i - windowSize)\<close> to
  \<open>min(length - 1, i + windowSize)\<close>, both included, so it is never empty.\<close>

definition smoothElevation :: "point list \<Rightarrow> nat \<Rightarrow> point list" where
  "smoothElevation points windowSize =
     map (\<lambda>i.
            let lo = nat (max 0 (int i - int windowSize));
                hi = min (length points - 1) (i + windowSize);
                window = map (\<lambda>j. ele (points ! j)) [lo ..< hi + 1]
            in (points ! i)\<lparr> ele := sum_list window / real (length window) \<rparr>)
         [0 ..< length points]"

text \<open>\<open>rawPoints.map((p, i) => ...)\<close> with the running \<open>totalDist\<close>: the points with their
  distance, and \<open>totalDist\<close> after the last one.\<close>

fun addDist :: "rawPoint list \<Rightarrow> rawPoint option \<Rightarrow> real \<Rightarrow> point list \<times> real" where
  "addDist [] prev totalDist = ([], totalDist)"
| "addDist (p # ps) prev totalDist =
     (let totalDist' =
            (case prev of
               None \<Rightarrow> totalDist
             | Some q \<Rightarrow> totalDist + haversineDistance (lat q) (lon q) (lat p) (lon p))
      in case addDist ps (Some p) totalDist' of
           (rest, totalDist'') \<Rightarrow>
             (\<lparr> lat = lat p, lon = lon p, ele = ele p, dist_p = totalDist' \<rparr> # rest,
              totalDist''))"

record appState =
  fileData_s :: "fileData option"
  baseData_s :: "baseData option"
  laps_s :: nat
  isProcessing :: bool
  raceTitle :: string
  raceDescription :: string

text \<open>\<open>processGPX\<close> on the track points of the parsed document: the state it leaves and
  the lines it writes with \<open>console.error\<close>. A missing \<open>ele\<close> tag reads as 0. The
  \<open>finally\<close> block runs on the early return too.\<close>

definition processGPX :: "appState \<Rightarrow> trkpt list \<Rightarrow> appState \<times> string list" where
  "processGPX st trkpts =
     (if length trkpts = 0
      then (st\<lparr> isProcessing := False \<rparr>, [''No track points found in GPX file.''])
      else
        (let rawPoints =
               map (\<lambda>p. \<lparr> lat = attr_lat p, lon = attr_lon p,
                          ele = (case ele_text p of Some e \<Rightarrow> e | None \<Rightarrow> 0) \<rparr>) trkpts
         in case addDist rawPoints None 0 of
              (pointsWithDist, totalDist) \<Rightarrow>
                (let smoothedPoints = smoothElevation pointsWithDist 3
                 in (st\<lparr> laps_s := 1, raceTitle := ''New Race Profile'',
                          raceDescription := [],
                          baseData_s := Some \<lparr> points_b = smoothedPoints, distance = totalDist \<rparr>,
                          isProcessing := False \<rparr>, []))))"

subsection \<open>Laps: the effect that recalculates\<close>

text \<open>\<open>for (let i = 0; i < laps; i++)\<close>: each lap is a mapped copy of the base points.\<close>

function lapLoop :: "baseData \<Rightarrow> nat \<Rightarrow> nat \<Rightarrow> point list \<Rightarrow> point list" where
  "lapLoop baseData laps i fullPoints =
     (if i < laps then
        (let lapOffset = real i * distance baseData;
             lapPoints = map (\<lambda>p. p\<lparr> dist_p := dist_p p + lapOffset \<rparr>) (points_b baseData)
         in lapLoop baseData laps (i + 1) (fullPoints @ lapPoints))
      else fullPoints)"
  by pat_completeness auto
termination
  by (relation "measure (\<lambda>(baseData, laps, i, fullPoints). laps - i)") auto

declare lapLoop.simps [simp del]

text \<open>What the effect hands to \<open>analyzeRoute\<close>: \<open>fullPoints\<close> and \<open>totalDistance\<close>.\<close>

definition expandLaps :: "baseData \<Rightarrow> nat \<Rightarrow> point list \<times> real" where
  "expandLaps baseData laps = (lapLoop baseData laps 0 [], distance baseData * real laps)"

text \<open>The body of \<open>useEffect\<close>: nothing without base data; otherwise the analysis of the
  expanded course replaces \<open>fileData\<close>.\<close>

definition recalculate :: "appState \<Rightarrow> js_error + appState" where
  "recalculate st =
     (case baseData_s st of
        None \<Rightarrow> Inr st
      | Some baseData \<Rightarrow>
          (case expandLaps baseData (laps_s st) of
             (fullPoints, totalDistance) \<Rightarrow>
               (case analyzeRoute fullPoints totalDistance of
                  Inl e \<Rightarrow> Inl e
                | Inr result \<Rightarrow> Inr (st\<lparr> fileData_s := Some result \<rparr>))))"

text \<open>\<open>reader.onload\<close>: \<open>processGPX\<close>, then the effect when \<open>setBaseData\<close> stored a new
  object, which is the path that writes nothing to the console.\<close>

definition reader_onload :: "appState \<Rightarrow> trkpt list \<Rightarrow> js_error + appState" where
  "reader_onload st trkpts =
     (case processGPX st trkpts of
        (st', console) \<Rightarrow> if console = [] then recalculate st' else Inr st')"

subsection \<open>The gain of a climb in binary64\<close>

text \<open>
  The code computes \<open>end.ele - start.ele\<close> and \<open>currentClimb.gain += chunk.gain\<close> on
  binary64 numbers: each operation returns the binary64 number nearest to the exact
  result, ties to the even mantissa. A binary64 number is a pair \<open>(m, e)\<close> that stands for
  \<open>m * 2^e\<close>. The exponent is not bounded here: an overflow to \<open>Infinity\<close> is outside the
  model; a sum or difference in the subnormal range is exact in binary64 and here.
\<close>

type_synonym binary64 = "int \<times> int"

text \<open>The real number a pair stands for.\<close>

fun val64 :: "binary64 \<Rightarrow> real" where
  "val64 (m, e) = real_of_int m * 2 powi e"

text \<open>The number of binary digits of a natural number.\<close>

fun bits :: "nat \<Rightarrow> nat" where
  "bits n = (if n = 0 then 0 else Suc (bits (n div 2)))"

declare bits.simps [simp del]

text \<open>\<open>n / 2^k\<close> rounded to the nearest natural number, ties to even.\<close>

definition roundEven :: "nat \<Rightarrow> nat \<Rightarrow> nat" where
  "roundEven n k =
     (if k = 0 then n
      else if n mod 2 ^ k > 2 ^ (k - 1) \<or> (n mod 2 ^ k = 2 ^ (k - 1) \<and> odd (n div 2 ^ k))
           then n div 2 ^ k + 1
           else n div 2 ^ k)"

text \<open>Rounding to 53 binary digits.\<close>

fun round53 :: "binary64 \<Rightarrow> binary64" where
  "round53 (m, e) =
     (if bits (nat \<bar>m\<bar>) \<le> 53 then (m, e)
      else (sgn m * int (roundEven (nat \<bar>m\<bar>) (bits (nat \<bar>m\<bar>) - 53)),
            e + int (bits (nat \<bar>m\<bar>) - 53)))"

text \<open>The sum and the difference: the exact result, rounded.\<close>

fun add64 :: "binary64 \<Rightarrow> binary64 \<Rightarrow> binary64" where
  "add64 (m1, e1) (m2, e2) =
     round53 (m1 * 2 ^ nat (e1 - min e1 e2) + m2 * 2 ^ nat (e2 - min e1 e2), min e1 e2)"

fun sub64 :: "binary64 \<Rightarrow> binary64 \<Rightarrow> binary64" where
  "sub64 x (m2, e2) = add64 x (- m2, e2)"

text \<open>Half the distance from 1 to the next binary64 number: the bound on the relative
  error of one rounding.\<close>

definition unit64 :: real where
  "unit64 = 1 / 2 ^ 53"

text \<open>\<open>const gain = end.ele - start.ele\<close>\<close>

definition chunkGain64 :: "binary64 \<Rightarrow> binary64 \<Rightarrow> binary64" where
  "chunkGain64 start_ele end_ele = sub64 end_ele start_ele"

text \<open>The gains of the chunks between consecutive boundary elevations.\<close>

fun chunkGains64 :: "binary64 list \<Rightarrow> binary64 list" where
  "chunkGains64 (a # b # es) = chunkGain64 a b # chunkGains64 (b # es)"
| "chunkGains64 es = []"

text \<open>\<open>gain: chunk.gain\<close> for the first chunk of a climb, then
  \<open>currentClimb.gain += chunk.gain\<close> for each further one, in order.\<close>

definition climbGain64 :: "binary64 list \<Rightarrow> binary64 option" where
  "climbGain64 gains = (case gains of [] \<Rightarrow> None | g # gs \<Rightarrow> Some (foldl add64 g gs))"

text \<open>The elevations at the boundaries of the chunks of a climb: where the first chunk
  starts, then where each chunk ends.\<close>

definition boundaryEle :: "chunk list \<Rightarrow> real list" where
  "boundaryEle cs = (case cs of [] \<Rightarrow> [] | c # _ \<Rightarrow> startEle c # map endEle cs)"

subsection \<open>Well-formed tracks and the shape of the intermediate lists\<close>

text \<open>The cumulative distance of a track never decreases.\<close>

definition nondecreasing :: "point list \<Rightarrow> bool" where
  "nondecreasing points = sorted (map dist_p points)"

text \<open>A track lies on its course: its distances are between 0 and the total distance.\<close>

definition onCourse :: "point list \<Rightarrow> real \<Rightarrow> bool" where
  "onCourse points totalDistance =
     (nondecreasing points \<and>
      list_all (\<lambda>p. 0 \<le> dist_p p \<and> dist_p p \<le> totalDistance) points)"

text \<open>Two chunks follow each other: the second starts at the point where the first ends.\<close>

definition linked :: "chunk \<Rightarrow> chunk \<Rightarrow> bool" where
  "linked a b = (endDist a = startDist b \<and> endEle a = startEle b)"

text \<open>A climb is made of its chunks: they follow each other, the climb starts where the
  first starts and ends where the last ends, and its gain is the sum of theirs.\<close>

definition wfSegment :: "segment \<Rightarrow> bool" where
  "wfSegment g =
     (chunks_c g \<noteq> [] \<and> successively linked (chunks_c g) \<and>
      startDist_c g = startDist (hd (chunks_c g)) \<and>
      endDist_c g = endDist (last (chunks_c g)) \<and>
      gain_c g = sum_list (map gain (chunks_c g)))"

text \<open>Chunks, and climbs, in course order: each ends before the later ones start, and
  each is at least CHUNK_SIZE long.\<close>

definition chunksOrdered :: "chunk list \<Rightarrow> bool" where
  "chunksOrdered cs =
     (sorted_wrt (\<lambda>a b. endDist a \<le> startDist b) cs \<and>
      list_all (\<lambda>c. startDist c + CHUNK_SIZE \<le> endDist c) cs)"

definition climbsOrdered :: "'a segment_scheme list \<Rightarrow> bool" where
  "climbsOrdered gs =
     (sorted_wrt (\<lambda>g h. endDist_c g \<le> startDist_c h) gs \<and>
      list_all (\<lambda>g. startDist_c g + CHUNK_SIZE \<le> endDist_c g) gs)"

text \<open>Lap \<open>i\<close> of the expanded course.\<close>

definition lapCopy :: "baseData \<Rightarrow> nat \<Rightarrow> point list" where
  "lapCopy baseData i =
     map (\<lambda>p. p\<lparr> dist_p := dist_p p + real i * distance baseData \<rparr>) (points_b baseData)"

text \<open>What a result shows of its scores: per climb the raw score, the multiplier and the
  final score; the total score; the climb weighting.\<close>

definition scoreTable :: "js_error + fileData_tpv \<Rightarrow> ((real \<times> real \<times> real) list \<times> real \<times> real) option" where
  "scoreTable res =
     (case res of
        Inl e \<Rightarrow> None
      | Inr r \<Rightarrow>
          Some (map (\<lambda>c. (rawScore c, multiplier c, finalScore c)) (climbs_t r),
                totalScore_t r, tpvClimbWeighting r))"

subsection \<open>Sample tracks\<close>

text \<open>A point at distance \<open>d\<close> km and elevation \<open>e\<close> m.\<close>

definition pt :: "real \<Rightarrow> real \<Rightarrow> point" where
  "pt d e = \<lparr> lat = 0, lon = 0, ele = e, dist_p = d \<rparr>"

text \<open>One climb of 5 km and 250 m that ends at the finish of a 50 km course.\<close>

definition scenarioB :: "point list" where
  "scenarioB = [pt 0 0, pt 45 0, pt 46 50, pt 47 100, pt 48 150, pt 49 200, pt 50 250]"

text \<open>Two climbs, dips between the chunk boundaries, and a tail of 100 m.\<close>

definition twoClimbs :: "point list" where
  "twoClimbs = [pt 0 0, pt 0.1 (-5), pt 1 30, pt 1.1 25, pt 2 60, pt 3 60, pt 4 90,
                pt 5 90, pt 6 90, pt 6.1 90]"

text \<open>Five climbs of a 100 km course, ending 99, 75, 50, 25 and 10 km before the finish.\<close>

definition fiveClimbs :: "point list" where
  "fiveClimbs = [pt 0 0, pt 1 30, pt 24 30, pt 25 60, pt 49 60, pt 50 90, pt 74 90,
                 pt 75 120, pt 89 120, pt 90 150, pt 100 150]"

text \<open>A climb interrupted by one chunk of gradient exactly 1.5 percent.\<close>

definition thresholdTrack :: "point list" where
  "thresholdTrack = [pt 0 0, pt 1 30, pt 2 45, pt 3 75]"

text \<open>The binary64 numbers nearest to 0.1, 7.2 and 20.1, and a climb of two chunks over
  them.\<close>

definition ele_0_1 :: binary64 where "ele_0_1 = (7205759403792794, - 56)"
definition ele_7_2 :: binary64 where "ele_7_2 = (8106479329266893, - 50)"
definition ele_20_1 :: binary64 where "ele_20_1 = (5657647031884186, - 48)"

definition roundingTrack :: "point list" where
  "roundingTrack = [pt 0 (val64 ele_0_1), pt 0.25 (val64 ele_7_2), pt 0.5 (val64 ele_20_1)]"

text \<open>The state of the component as \<open>useState\<close> initialises it; the same while a file is
  being read (\<open>handleFile\<close> sets \<open>isProcessing\<close>); and a state that holds the result of
  an earlier upload while a new file is being read.\<close>

definition initialState :: appState where
  "initialState =
     \<lparr> fileData_s = None, baseData_s = None, laps_s = 1, isProcessing = False,
       raceTitle = ''Race Title'', raceDescription = [] \<rparr>"

definition uploadingState :: appState where
  "uploadingState = initialState\<lparr> isProcessing := True \<rparr>"

definition loadedState :: appState where
  "loadedState =
     (case recalculate (initialState\<lparr> baseData_s := Some \<lparr> points_b = scenarioB, distance = 50 \<rparr> \<rparr>) of
        Inr st \<Rightarrow> st\<lparr> isProcessing := True \<rparr>
      | Inl e \<Rightarrow> initialState)"

section \<open>Properties\<close>

subsection \<open>The chunking loop\<close>

lemma findChunkEnd_stop:
  "findChunkEnd points start j < length points \<Longrightarrow>
   CHUNK_SIZE \<le> dist_p (points ! findChunkEnd points start j) - dist_p start"
proof (induction points start j rule: findChunkEnd.induct)
  case (1 points start j)
  show ?case
  proof (cases "j < length points \<and> dist_p (points ! j) - dist_p start < CHUNK_SIZE")
    case True
    then have eq: "findChunkEnd points start j = findChunkEnd points start (j + 1)"
      by (subst findChunkEnd.simps) simp
    with "1.prems" "1.IH" True show ?thesis by simp
  next
    case False
    then have eq: "findChunkEnd points start j = j"
      by (subst findChunkEnd.simps) auto
    with "1.prems" False show ?thesis by auto
  qed
qed

lemma findChunkEnd_skipped:
  "j \<le> m \<Longrightarrow> m < findChunkEnd points start j \<Longrightarrow>
   m < length points \<and> dist_p (points ! m) - dist_p start < CHUNK_SIZE"
proof (induction points start j rule: findChunkEnd.induct)
  case (1 points start j)
  show ?case
  proof (cases "j < length points \<and> dist_p (points ! j) - dist_p start < CHUNK_SIZE")
    case True
    then have eq: "findChunkEnd points start j = findChunkEnd points start (j + 1)"
      by (subst findChunkEnd.simps) simp
    show ?thesis
    proof (cases "m = j")
      case True
      with \<open>j < length points \<and> dist_p (points ! j) - dist_p start < CHUNK_SIZE\<close>
      show ?thesis by simp
    next
      case False
      with "1.prems" have "j + 1 \<le> m" by simp
      with "1.IH" True "1.prems" eq show ?thesis by simp
    qed
  next
    case False
    then have eq: "findChunkEnd points start j = j"
      by (subst findChunkEnd.simps) auto
    with "1.prems" show ?thesis by simp
  qed
qed

lemma findChunkEnd_le_length:
  "j \<le> length points \<Longrightarrow> findChunkEnd points start j \<le> length points"
proof (induction points start j rule: findChunkEnd.induct)
  case (1 points start j)
  show ?case
  proof (cases "j < length points \<and> dist_p (points ! j) - dist_p start < CHUNK_SIZE")
    case True
    then have eq: "findChunkEnd points start j = findChunkEnd points start (j + 1)"
      by (subst findChunkEnd.simps) simp
    with "1.IH" True show ?thesis by simp
  next
    case False
    then have eq: "findChunkEnd points start j = j"
      by (subst findChunkEnd.simps) auto
    with "1.prems" show ?thesis by simp
  qed
qed

lemma chunkLoop_unfold:
  "chunkLoop points i chunks =
     (if i < length points then
        (if findChunkEnd points (points ! i) (i + 1) < length points
         then chunkLoop points (findChunkEnd points (points ! i) (i + 1))
                (chunks @ [mkChunk (points ! i)
                             (points ! findChunkEnd points (points ! i) (i + 1))])
         else chunkLoop points (i + 1) chunks)
      else chunks)"
proof -
  have "i + 1 \<le> findChunkEnd points (points ! i) (i + 1)"
    by (rule findChunkEnd_ge)
  then have "findChunkEnd points (points ! i) (i + 1) - 1 + 1
             = findChunkEnd points (points ! i) (i + 1)"
    by simp
  then show ?thesis
    by (subst chunkLoop.simps) (simp add: Let_def)
qed

lemma chunkLoop_acc: "chunkLoop points i chunks = chunks @ chunkLoop points i []"
proof (induction "length points - i" arbitrary: i chunks rule: less_induct)
  case less
  let ?j = "findChunkEnd points (points ! i) (i + 1)"
  let ?c = "mkChunk (points ! i) (points ! ?j)"
  have ge: "i + 1 \<le> ?j" by (rule findChunkEnd_ge)
  show ?case
  proof (cases "i < length points")
    case False
    then show ?thesis by (simp add: chunkLoop_unfold[of points i])
  next
    case True
    show ?thesis
    proof (cases "?j < length points")
      case j: True
      from ge j have m: "length points - ?j < length points - i" by simp
      have "chunkLoop points i chunks = chunkLoop points ?j (chunks @ [?c])"
        using True j by (simp add: chunkLoop_unfold[of points i])
      also have "\<dots> = (chunks @ [?c]) @ chunkLoop points ?j []"
        by (rule less[OF m])
      also have "\<dots> = chunks @ chunkLoop points ?j [?c]"
        using less[OF m, of "[?c]"] by simp
      also have "chunkLoop points ?j [?c] = chunkLoop points i []"
        using True j by (simp add: chunkLoop_unfold[of points i])
      finally show ?thesis .
    next
      case j: False
      from True have m: "length points - (i + 1) < length points - i" by simp
      have "chunkLoop points i chunks = chunkLoop points (i + 1) chunks"
        using True j by (simp add: chunkLoop_unfold[of points i])
      also have "\<dots> = chunks @ chunkLoop points (i + 1) []"
        by (rule less[OF m])
      also have "chunkLoop points (i + 1) [] = chunkLoop points i []"
        using True j by (simp add: chunkLoop_unfold[of points i])
      finally show ?thesis .
    qed
  qed
qed

text \<open>On a nondecreasing track, once no chunk starts at i none starts later.\<close>

lemma nondecreasing_nth:
  "nondecreasing points \<Longrightarrow> i \<le> k \<Longrightarrow> k < length points \<Longrightarrow>
   dist_p (points ! i) \<le> dist_p (points ! k)"
  unfolding nondecreasing_def
  using sorted_nth_mono[of "map dist_p points" i k] by simp

lemma chunkLoop_exhausted:
  assumes nd: "nondecreasing points"
    and close: "\<forall>k. i < k \<and> k < length points \<longrightarrow>
                  dist_p (points ! k) - dist_p (points ! i) < CHUNK_SIZE"
  shows "i \<le> m \<Longrightarrow> chunkLoop points m chunks = chunks"
proof (induction "length points - m" arbitrary: m rule: less_induct)
  case less
  let ?j = "findChunkEnd points (points ! m) (m + 1)"
  show ?case
  proof (cases "m < length points")
    case False
    then show ?thesis by (simp add: chunkLoop_unfold[of points m])
  next
    case True
    have "\<not> ?j < length points"
    proof
      assume j: "?j < length points"
      have "m + 1 \<le> ?j" by (rule findChunkEnd_ge)
      with less.prems have "i < ?j" by simp
      with close j have c: "dist_p (points ! ?j) - dist_p (points ! i) < CHUNK_SIZE" by simp
      from nd less.prems True have "dist_p (points ! i) \<le> dist_p (points ! m)"
        by (rule nondecreasing_nth)
      moreover from j have "CHUNK_SIZE \<le> dist_p (points ! ?j) - dist_p (points ! m)"
        by (rule findChunkEnd_stop)
      ultimately show False using c by simp
    qed
    with True have "chunkLoop points m chunks = chunkLoop points (m + 1) chunks"
      by (simp add: chunkLoop_unfold[of points m])
    also have "\<dots> = chunks"
      using less.hyps[of "m + 1"] True less.prems by simp
    finally show ?thesis .
  qed
qed

text \<open>So on a nondecreasing track the loop is this recursion.\<close>

lemma chunkLoop_nondecreasing:
  assumes nd: "nondecreasing points"
  shows "chunkLoop points i [] =
     (if i < length points \<and> findChunkEnd points (points ! i) (i + 1) < length points
      then mkChunk (points ! i) (points ! findChunkEnd points (points ! i) (i + 1))
           # chunkLoop points (findChunkEnd points (points ! i) (i + 1)) []
      else [])"
proof -
  let ?j = "findChunkEnd points (points ! i) (i + 1)"
  show ?thesis
  proof (cases "i < length points")
    case False
    then show ?thesis by (simp add: chunkLoop_unfold[of points i])
  next
    case True
    show ?thesis
    proof (cases "?j < length points")
      case j: True
      then show ?thesis
        using True chunkLoop_acc[of points ?j "[mkChunk (points ! i) (points ! ?j)]"]
        by (simp add: chunkLoop_unfold[of points i])
    next
      case j: False
      have "\<forall>k. i < k \<and> k < length points \<longrightarrow>
                  dist_p (points ! k) - dist_p (points ! i) < CHUNK_SIZE"
      proof (intro allI impI)
        fix k assume k: "i < k \<and> k < length points"
        with j have "i + 1 \<le> k" "k < ?j" by simp_all
        then show "dist_p (points ! k) - dist_p (points ! i) < CHUNK_SIZE"
          using findChunkEnd_skipped by blast
      qed
      with nd have "chunkLoop points i [] = []"
        by (rule chunkLoop_exhausted) simp
      with j show ?thesis by simp
    qed
  qed
qed

lemma mkChunk_sel:
  "startDist (mkChunk a b) = dist_p a" "endDist (mkChunk a b) = dist_p b"
  "startEle (mkChunk a b) = ele a" "endEle (mkChunk a b) = ele b"
  "gain (mkChunk a b) = ele b - ele a"
  by (simp_all add: mkChunk_def Let_def)

lemma mkChunk_gradient:
  "gradient (mkChunk a b) = ((ele b - ele a) / ((dist_p b - dist_p a) * 1000)) * 100"
  by (simp only: mkChunk_def Let_def chunk.select_convs)

text \<open>Every chunk joins two points of the track, the later one at least CHUNK_SIZE on.\<close>

lemma chunkLoop_chunks:
  "c \<in> set (chunkLoop points i []) \<Longrightarrow>
   \<exists>a b. i \<le> a \<and> a < b \<and> b < length points \<and> c = mkChunk (points ! a) (points ! b) \<and>
         CHUNK_SIZE \<le> dist_p (points ! b) - dist_p (points ! a)"
proof (induction "length points - i" arbitrary: i rule: less_induct)
  case less
  let ?j = "findChunkEnd points (points ! i) (i + 1)"
  have ge: "i + 1 \<le> ?j" by (rule findChunkEnd_ge)
  show ?case
  proof (cases "i < length points")
    case False
    with less.prems show ?thesis by (simp add: chunkLoop_unfold[of points i])
  next
    case True
    show ?thesis
    proof (cases "?j < length points")
      case j: True
      have "chunkLoop points i [] = mkChunk (points ! i) (points ! ?j) # chunkLoop points ?j []"
        using True j chunkLoop_acc[of points ?j "[mkChunk (points ! i) (points ! ?j)]"]
        by (simp add: chunkLoop_unfold[of points i])
      with less.prems
      consider "c = mkChunk (points ! i) (points ! ?j)" | "c \<in> set (chunkLoop points ?j [])"
        by auto
      then show ?thesis
      proof cases
        case 1
        moreover from j have "CHUNK_SIZE \<le> dist_p (points ! ?j) - dist_p (points ! i)"
          by (rule findChunkEnd_stop)
        ultimately show ?thesis using ge j by (intro exI[of _ i] exI[of _ ?j]) simp
      next
        case 2
        from ge j have "length points - ?j < length points - i" by simp
        from less.hyps[OF this 2] obtain a b where
          "?j \<le> a \<and> a < b \<and> b < length points \<and> c = mkChunk (points ! a) (points ! b) \<and>
           CHUNK_SIZE \<le> dist_p (points ! b) - dist_p (points ! a)" by blast
        with ge show ?thesis by (intro exI[of _ a] exI[of _ b]) simp
      qed
    next
      case j: False
      with True have e: "chunkLoop points i [] = chunkLoop points (i + 1) []"
        by (simp add: chunkLoop_unfold[of points i])
      from True have "length points - (i + 1) < length points - i" by simp
      from less.hyps[OF this] less.prems e obtain a b where
          "i + 1 \<le> a \<and> a < b \<and> b < length points \<and> c = mkChunk (points ! a) (points ! b) \<and>
           CHUNK_SIZE \<le> dist_p (points ! b) - dist_p (points ! a)" by auto
      then show ?thesis by (intro exI[of _ a] exI[of _ b]) simp
    qed
  qed
qed

lemma chunkLoop_length:
  "c \<in> set (chunkLoop points i []) \<Longrightarrow> CHUNK_SIZE \<le> endDist c - startDist c"
  using chunkLoop_chunks[of c points i] by (auto simp: mkChunk_sel)

lemma chunkLoop_gain:
  "c \<in> set (chunkLoop points i []) \<Longrightarrow> gain c = endEle c - startEle c"
  using chunkLoop_chunks[of c points i] by (auto simp: mkChunk_sel)

lemma chunkLoop_linked:
  assumes nd: "nondecreasing points"
  shows "successively linked (chunkLoop points i []) \<and>
         (chunkLoop points i [] \<noteq> [] \<longrightarrow>
            startDist (hd (chunkLoop points i [])) = dist_p (points ! i) \<and>
            startEle (hd (chunkLoop points i [])) = ele (points ! i))"
proof (induction "length points - i" arbitrary: i rule: less_induct)
  case less
  let ?j = "findChunkEnd points (points ! i) (i + 1)"
  have ge: "i + 1 \<le> ?j" by (rule findChunkEnd_ge)
  show ?case
  proof (cases "i < length points \<and> ?j < length points")
    case False
    then have "chunkLoop points i [] = []"
      by (subst chunkLoop_nondecreasing[OF nd]) simp
    then show ?thesis by simp
  next
    case True
    then have e: "chunkLoop points i [] =
        mkChunk (points ! i) (points ! ?j) # chunkLoop points ?j []"
      by (subst chunkLoop_nondecreasing[OF nd]) simp
    from ge True have "length points - ?j < length points - i" by arith
    from less.hyps[OF this]
    have ih: "successively linked (chunkLoop points ?j [])"
      "chunkLoop points ?j [] \<noteq> [] \<Longrightarrow>
         startDist (hd (chunkLoop points ?j [])) = dist_p (points ! ?j) \<and>
         startEle (hd (chunkLoop points ?j [])) = ele (points ! ?j)"
      by simp_all
    show ?thesis
      unfolding e using ih
      by (auto simp: successively_Cons linked_def mkChunk_sel)
  qed
qed

lemma chunkLoop_trailing:
  assumes nd: "nondecreasing points"
  shows "i < length points \<Longrightarrow>
     dist_p (last points)
       - (if chunkLoop points i [] = [] then dist_p (points ! i)
          else endDist (last (chunkLoop points i []))) < CHUNK_SIZE"
proof (induction "length points - i" arbitrary: i rule: less_induct)
  case less
  let ?j = "findChunkEnd points (points ! i) (i + 1)"
  have ge: "i + 1 \<le> ?j" by (rule findChunkEnd_ge)
  from less.prems have ne: "points \<noteq> []" by auto
  then have lst: "last points = points ! (length points - 1)" by (rule last_conv_nth)
  show ?case
  proof (cases "?j < length points")
    case False
    with less.prems have e: "chunkLoop points i [] = []"
      by (subst chunkLoop_nondecreasing[OF nd]) simp
    have "dist_p (points ! (length points - 1)) - dist_p (points ! i) < CHUNK_SIZE"
    proof (cases "i = length points - 1")
      case True
      then show ?thesis by (simp add: CHUNK_SIZE_def)
    next
      case ni: False
      with less.prems False have "i + 1 \<le> length points - 1" "length points - 1 < ?j"
        by simp_all
      then show ?thesis using findChunkEnd_skipped by blast
    qed
    with e lst show ?thesis by simp
  next
    case True
    with less.prems have e: "chunkLoop points i [] =
        mkChunk (points ! i) (points ! ?j) # chunkLoop points ?j []"
      by (subst chunkLoop_nondecreasing[OF nd]) simp
    from ge True have "length points - ?j < length points - i" by simp
    from less.hyps[OF this True] show ?thesis
      unfolding e by (simp add: mkChunk_sel split: if_splits)
  qed
qed

subsection \<open>Climb detection\<close>

lemma climbStep_cases:
  "isUphill x \<Longrightarrow> climbStep (climbs, None) x =
     (climbs, Some \<lparr> startDist_c = startDist x, endDist_c = endDist x,
                     gain_c = gain x, chunks_c = [x] \<rparr>)"
  "isUphill x \<Longrightarrow> climbStep (climbs, Some g) x =
     (climbs, Some (g\<lparr> endDist_c := endDist x, gain_c := gain_c g + gain x,
                       chunks_c := chunks_c g @ [x] \<rparr>))"
  "\<not> isUphill x \<Longrightarrow> climbStep (climbs, Some g) x = (climbs @ [g], None)"
  "\<not> isUphill x \<Longrightarrow> climbStep (climbs, None) x = (climbs, None)"
  by (simp_all add: climbStep_def)

lemma detect_wf_inv:
  "list_all wfSegment climbs \<Longrightarrow>
   (case cur of None \<Rightarrow> successively linked rest
    | Some g \<Rightarrow> wfSegment g \<and> successively linked (chunks_c g @ rest)) \<Longrightarrow>
   list_all wfSegment (flushClimb (foldl climbStep (climbs, cur) rest))"
proof (induction rest arbitrary: climbs cur)
  case Nil
  then show ?case by (cases cur) (simp_all add: flushClimb_def)
next
  case (Cons x xs)
  show ?case
  proof (cases cur)
    case None
    with Cons.prems have lx: "successively linked (x # xs)" by simp
    show ?thesis
    proof (cases "isUphill x")
      case True
      let ?g = "\<lparr> startDist_c = startDist x, endDist_c = endDist x,
                   gain_c = gain x, chunks_c = [x] \<rparr>"
      have "wfSegment ?g" by (simp add: wfSegment_def)
      with lx Cons.prems(1) show ?thesis
        using Cons.IH[where climbs = climbs and cur = "Some ?g"] None True by (simp add: climbStep_cases)
    next
      case False
      from lx have "successively linked xs" by (auto simp: successively_Cons)
      with Cons.prems(1) show ?thesis
        using Cons.IH[where climbs = climbs and cur = None] None False by (simp add: climbStep_cases)
    qed
  next
    case (Some g)
    with Cons.prems have wf: "wfSegment g" and l: "successively linked (chunks_c g @ x # xs)"
      by simp_all
    from l have lg: "successively linked (chunks_c g)" and lx: "successively linked (x # xs)"
      and lk: "chunks_c g \<noteq> [] \<longrightarrow> linked (last (chunks_c g)) x"
      by (auto simp: successively_append_iff)
    show ?thesis
    proof (cases "isUphill x")
      case True
      let ?g = "g\<lparr> endDist_c := endDist x, gain_c := gain_c g + gain x,
                    chunks_c := chunks_c g @ [x] \<rparr>"
      from wf lk have "wfSegment ?g"
        by (auto simp: wfSegment_def successively_append_iff)
      moreover from l have "successively linked (chunks_c ?g @ xs)" by simp
      ultimately show ?thesis
        using Cons.IH[where climbs = climbs and cur = "Some ?g"] Cons.prems(1) Some True
        by (simp add: climbStep_cases)
    next
      case False
      from lx have "successively linked xs" by (auto simp: successively_Cons)
      with Cons.prems(1) wf show ?thesis
        using Cons.IH[where climbs = "climbs @ [g]" and cur = None] Some False by (simp add: climbStep_cases)
    qed
  qed
qed

lemma detectClimbs_wf:
  "successively linked chunks \<Longrightarrow> list_all wfSegment (detectClimbs chunks)"
  unfolding detectClimbs_def using detect_wf_inv[where climbs = "[]" and cur = None and rest = chunks] by simp

text \<open>Linked chunks of positive length are ordered along the course.\<close>

lemma linked_after:
  "successively linked (x # xs) \<Longrightarrow> list_all (\<lambda>c. startDist c + CHUNK_SIZE \<le> endDist c) xs \<Longrightarrow>
   y \<in> set xs \<Longrightarrow> endDist x \<le> startDist y"
proof (induction xs arbitrary: x)
  case Nil
  then show ?case by simp
next
  case (Cons z zs)
  from Cons.prems(1) have xz: "endDist x = startDist z" and l: "successively linked (z # zs)"
    by (simp_all add: linked_def)
  from Cons.prems(2) have z: "startDist z + CHUNK_SIZE \<le> endDist z"
    and zs: "list_all (\<lambda>c. startDist c + CHUNK_SIZE \<le> endDist c) zs" by simp_all
  show ?case
  proof (cases "y = z")
    case True
    with xz show ?thesis by simp
  next
    case False
    with Cons.prems(3) have "y \<in> set zs" by simp
    from Cons.IH[OF l zs this] have "endDist z \<le> startDist y" .
    with xz z show ?thesis by (simp add: CHUNK_SIZE_def)
  qed
qed

lemma linked_chunksOrdered:
  "successively linked cs \<Longrightarrow> list_all (\<lambda>c. startDist c + CHUNK_SIZE \<le> endDist c) cs \<Longrightarrow>
   chunksOrdered cs"
proof (induction cs)
  case Nil
  then show ?case by (simp add: chunksOrdered_def)
next
  case (Cons x xs)
  from Cons.prems(1) have "successively linked xs" by (auto simp: successively_Cons)
  with Cons have "chunksOrdered xs" by simp
  moreover from Cons.prems have "\<forall>y\<in>set xs. endDist x \<le> startDist y"
    using linked_after[of x xs] by simp
  ultimately show ?case using Cons.prems(2) by (simp add: chunksOrdered_def)
qed

lemma climbsOrdered_snoc:
  "climbsOrdered (gs @ [g]) \<longleftrightarrow>
     climbsOrdered gs \<and> (\<forall>h\<in>set gs. endDist_c h \<le> startDist_c g) \<and>
     startDist_c g + CHUNK_SIZE \<le> endDist_c g"
  by (auto simp: climbsOrdered_def sorted_wrt_append)

lemma detect_ord_inv:
  "chunksOrdered rest \<Longrightarrow> climbsOrdered climbs \<Longrightarrow>
   (\<forall>h\<in>set climbs. \<forall>c\<in>set rest. endDist_c h \<le> startDist c) \<Longrightarrow>
   (case cur of None \<Rightarrow> True
    | Some g \<Rightarrow> startDist_c g + CHUNK_SIZE \<le> endDist_c g \<and>
               (\<forall>h\<in>set climbs. endDist_c h \<le> startDist_c g) \<and>
               (\<forall>c\<in>set rest. endDist_c g \<le> startDist c)) \<Longrightarrow>
   climbsOrdered (flushClimb (foldl climbStep (climbs, cur) rest))"
proof (induction rest arbitrary: climbs cur)
  case Nil
  then show ?case by (cases cur) (simp_all add: flushClimb_def climbsOrdered_snoc)
next
  case (Cons x xs)
  from Cons.prems(1) have xs: "chunksOrdered xs"
    and x: "startDist x + CHUNK_SIZE \<le> endDist x"
    and xafter: "\<forall>c\<in>set xs. endDist x \<le> startDist c"
    by (simp_all add: chunksOrdered_def)
  from Cons.prems(3) have cx: "\<forall>h\<in>set climbs. endDist_c h \<le> startDist x"
    and cxs: "\<forall>h\<in>set climbs. \<forall>c\<in>set xs. endDist_c h \<le> startDist c"
    by simp_all
  show ?case
  proof (cases cur)
    case None
    show ?thesis
    proof (cases "isUphill x")
      case True
      let ?g = "\<lparr> startDist_c = startDist x, endDist_c = endDist x,
                   gain_c = gain x, chunks_c = [x] \<rparr>"
      have "climbsOrdered (flushClimb (foldl climbStep (climbs, Some ?g) xs))"
        using xs Cons.prems(2) cxs x cx xafter
        by (intro Cons.IH) simp_all
      with None True show ?thesis by (simp add: climbStep_cases)
    next
      case False
      have "climbsOrdered (flushClimb (foldl climbStep (climbs, None) xs))"
        using xs Cons.prems(2) cxs by (intro Cons.IH) simp_all
      with None False show ?thesis by (simp add: climbStep_cases)
    qed
  next
    case (Some g)
    with Cons.prems(4) have g: "startDist_c g + CHUNK_SIZE \<le> endDist_c g"
      and gbefore: "\<forall>h\<in>set climbs. endDist_c h \<le> startDist_c g"
      and gx: "endDist_c g \<le> startDist x"
      and gxs: "\<forall>c\<in>set xs. endDist_c g \<le> startDist c"
      by simp_all
    show ?thesis
    proof (cases "isUphill x")
      case True
      let ?g = "g\<lparr> endDist_c := endDist x, gain_c := gain_c g + gain x,
                    chunks_c := chunks_c g @ [x] \<rparr>"
      have "0 \<le> CHUNK_SIZE" by (simp add: CHUNK_SIZE_def)
      with g gx x have "startDist_c ?g + CHUNK_SIZE \<le> endDist_c ?g" by simp
      then have "climbsOrdered (flushClimb (foldl climbStep (climbs, Some ?g) xs))"
        using xs Cons.prems(2) cxs gbefore xafter
        by (intro Cons.IH) simp_all
      with Some True show ?thesis by (simp add: climbStep_cases)
    next
      case False
      have "climbsOrdered (flushClimb (foldl climbStep (climbs @ [g], None) xs))"
        using xs Cons.prems(2) cxs gbefore g gxs
        by (intro Cons.IH) (auto simp: climbsOrdered_snoc)
      with Some False show ?thesis by (simp add: climbStep_cases)
    qed
  qed
qed

lemma detectClimbs_ordered:
  "chunksOrdered chunks \<Longrightarrow> climbsOrdered (detectClimbs chunks)"
  unfolding detectClimbs_def
  using detect_ord_inv[where climbs = "[]" and cur = None and rest = chunks]
  by (simp add: climbsOrdered_def)

text \<open>The two facts, for the chunks of a nondecreasing track.\<close>

lemma chunkRoute_linked:
  "nondecreasing points \<Longrightarrow> successively linked (chunkRoute points)"
  unfolding chunkRoute_def using chunkLoop_linked[of points 0] by simp

lemma chunkRoute_ordered:
  assumes "nondecreasing points"
  shows "chunksOrdered (chunkRoute points)"
proof (rule linked_chunksOrdered)
  show "successively linked (chunkRoute points)"
    using assms by (rule chunkRoute_linked)
  show "list_all (\<lambda>c. startDist c + CHUNK_SIZE \<le> endDist c) (chunkRoute points)"
    unfolding chunkRoute_def list_all_iff
    using chunkLoop_length[of _ points 0] by fastforce
qed

lemma detect_route_wf:
  "nondecreasing points \<Longrightarrow> list_all wfSegment (detectClimbs (chunkRoute points))"
  by (intro detectClimbs_wf chunkRoute_linked)

lemma detect_route_ordered:
  "nondecreasing points \<Longrightarrow> climbsOrdered (detectClimbs (chunkRoute points))"
  by (intro detectClimbs_ordered chunkRoute_ordered)

subsection \<open>Gains, scores and the order of the scored climbs\<close>

lemma telescope:
  "cs \<noteq> [] \<Longrightarrow> successively linked cs \<Longrightarrow>
   list_all (\<lambda>c. gain c = endEle c - startEle c) cs \<Longrightarrow>
   sum_list (map gain cs) = endEle (last cs) - startEle (hd cs)"
proof (induction cs rule: induct_list012)
  case 1
  then show ?case by simp
next
  case (2 x)
  then show ?case by simp
next
  case (3 x y zs)
  from "3.prems" have "sum_list (map gain (y # zs)) = endEle (last (y # zs)) - startEle (hd (y # zs))"
    by (intro "3.IH") simp_all
  moreover from "3.prems" have "endEle x = startEle y" "gain x = endEle x - startEle x"
    by (simp_all add: linked_def)
  ultimately show ?case by simp
qed

lemma detect_subset_inv:
  "list_all (\<lambda>g. set (chunks_c g) \<subseteq> S) climbs \<Longrightarrow>
   (case cur of None \<Rightarrow> True | Some g \<Rightarrow> set (chunks_c g) \<subseteq> S) \<Longrightarrow>
   set rest \<subseteq> S \<Longrightarrow>
   list_all (\<lambda>g. set (chunks_c g) \<subseteq> S) (flushClimb (foldl climbStep (climbs, cur) rest))"
proof (induction rest arbitrary: climbs cur)
  case Nil
  then show ?case by (cases cur) (simp_all add: flushClimb_def)
next
  case (Cons x xs)
  then show ?case
    by (cases cur; cases "isUphill x") (simp_all add: climbStep_cases)
qed

lemma detectClimbs_subset:
  "g \<in> set (detectClimbs chunks) \<Longrightarrow> set (chunks_c g) \<subseteq> set chunks"
  using detect_subset_inv[where climbs = "[]" and cur = None and rest = chunks and S = "set chunks"]
  by (simp add: detectClimbs_def list_all_iff)

lemma foldl_finalScore:
  "foldl (\<lambda>acc c. acc + finalScore c) a cs = a + sum_list (map finalScore cs)"
  by (induction cs arbitrary: a) simp_all

lemma scoreClimb_sel:
  "startDist_c (scoreClimb td g k) = startDist_c g"
  "endDist_c (scoreClimb td g k) = endDist_c g"
  "gain_c (scoreClimb td g k) = gain_c g"
  "chunks_c (scoreClimb td g k) = chunks_c g"
  "lengthKm (scoreClimb td g k) = endDist_c g - startDist_c g"
  "distFromFinish (scoreClimb td g k) = td - endDist_c g"
  "finalScore (scoreClimb td g k) = rawScore (scoreClimb td g k) * multiplier (scoreClimb td g k)"
  by (simp_all add: scoreClimb_def Let_def)

lemma scoreClimb_tpv_sel:
  "startDist_c (scoreClimb_tpv td g) = startDist_c g"
  "endDist_c (scoreClimb_tpv td g) = endDist_c g"
  "gain_c (scoreClimb_tpv td g) = gain_c g"
  "chunks_c (scoreClimb_tpv td g) = chunks_c g"
  "lengthKm (scoreClimb_tpv td g) = endDist_c g - startDist_c g"
  "distFromFinish (scoreClimb_tpv td g) = td - endDist_c g"
  "finalScore (scoreClimb_tpv td g) = rawScore (scoreClimb_tpv td g) * multiplier (scoreClimb_tpv td g)"
  by (simp_all add: scoreClimb_tpv_def Let_def)

lemma climbsOrdered_filter:
  "climbsOrdered gs \<Longrightarrow> climbsOrdered (filter P gs)"
  by (simp add: climbsOrdered_def sorted_wrt_filter list_all_iff)

lemma climbsOrdered_map:
  assumes "climbsOrdered gs"
    and "\<And>g. startDist_c (f g) = startDist_c g" and "\<And>g. endDist_c (f g) = endDist_c g"
  shows "climbsOrdered (map f gs)"
  using assms by (simp add: climbsOrdered_def sorted_wrt_map list_all_iff)

lemma climbsOrdered_sorted:
  assumes "climbsOrdered gs"
  shows "sorted (map startDist_c gs)"
proof -
  have c: "0 \<le> CHUNK_SIZE" by (simp add: CHUNK_SIZE_def)
  from assms have s: "sorted_wrt (\<lambda>g h. endDist_c g \<le> startDist_c h) gs"
    and l: "\<forall>g\<in>set gs. startDist_c g + CHUNK_SIZE \<le> endDist_c g"
    by (simp_all add: climbsOrdered_def list_all_iff)
  have "sorted_wrt (\<lambda>g h. startDist_c g \<le> startDist_c h) gs"
  proof (rule sorted_wrt_mono_rel[OF _ s])
    fix g h assume "g \<in> set gs" "h \<in> set gs" "endDist_c g \<le> startDist_c h"
    with l c show "startDist_c g \<le> startDist_c h" by fastforce
  qed
  then show ?thesis by (simp add: sorted_map)
qed

lemma climbsOrdered_same_bounds:
  assumes "climbsOrdered ys"
    and "map startDist_c zs = map startDist_c ys" and "map endDist_c zs = map endDist_c ys"
  shows "climbsOrdered zs"
proof -
  from assms(2) have len: "length zs = length ys" by (rule map_eq_imp_length_eq)
  have st: "startDist_c (zs ! i) = startDist_c (ys ! i)" if "i < length ys" for i
    using that len nth_map[of i zs startDist_c] nth_map[of i ys startDist_c] assms(2) by simp
  have en: "endDist_c (zs ! i) = endDist_c (ys ! i)" if "i < length ys" for i
    using that len nth_map[of i zs endDist_c] nth_map[of i ys endDist_c] assms(3) by simp
  from assms(1) show ?thesis
    unfolding climbsOrdered_def sorted_wrt_iff_nth_less list_all_length len
    using st en by simp
qed

lemma map_snd_enumerate_fun: "map (\<lambda>x. f (snd x)) (enumerate n ys) = map f ys"
  by (induction ys arbitrary: n) simp_all

lemma validClimbs_ordered:
  assumes "climbsOrdered gs"
  shows "climbsOrdered (validClimbs td gs)"
proof -
  let ?ys = "filter (\<lambda>c. gain_c c > 20) gs"
  let ?zs = "map (\<lambda>(index, c). scoreClimb td c index) (enumerate 0 ?ys)"
  from assms have f: "climbsOrdered ?ys" by (rule climbsOrdered_filter)
  have "climbsOrdered ?zs"
    using f
    by (rule climbsOrdered_same_bounds)
       (simp_all add: comp_def case_prod_beta scoreClimb_sel map_snd_enumerate_fun)
  then have "sorted (map startDist_c ?zs)" by (rule climbsOrdered_sorted)
  then have "sort_key startDist_c ?zs = ?zs" by (rule sort_key_id_if_sorted)
  with \<open>climbsOrdered ?zs\<close> show ?thesis by (simp add: validClimbs_def)
qed

lemma validClimbs_tpv_ordered:
  "climbsOrdered gs \<Longrightarrow> climbsOrdered (validClimbs_tpv td gs)"
  unfolding validClimbs_tpv_def
  by (intro climbsOrdered_map climbsOrdered_filter) (simp_all add: scoreClimb_tpv_sel)

lemma climbsOrdered_adjacent:
  assumes "climbsOrdered gs" and "Suc i < length gs"
  shows "endDist_c (gs ! i) \<le> startDist_c (gs ! Suc i) \<and>
         startDist_c (gs ! i) < startDist_c (gs ! Suc i)"
proof -
  from assms have "endDist_c (gs ! i) \<le> startDist_c (gs ! Suc i)"
    using sorted_wrt_nth_less[of "\<lambda>g h. endDist_c g \<le> startDist_c h" gs i "Suc i"]
    by (simp add: climbsOrdered_def)
  moreover from assms have "startDist_c (gs ! i) + CHUNK_SIZE \<le> endDist_c (gs ! i)"
    by (simp add: climbsOrdered_def list_all_length)
  ultimately show ?thesis by (simp add: CHUNK_SIZE_def)
qed

lemma analyzeRoute_fields:
  assumes "analyzeRoute points td = Inr r"
  shows "climbs_f r = validClimbs td (detectClimbs (chunkRoute points))"
    and "totalScore_f r = foldl (\<lambda>acc c. acc + finalScore c) 0 (climbs_f r)"
proof -
  from assms obtain mx mn where m: "Math_max (map ele points) = Some mx"
    "Math_min (map ele points) = Some mn"
    by (cases "Math_max (map ele points)"; cases "Math_min (map ele points)")
       (simp_all add: analyzeRoute_def Let_def)
  note e = assms[unfolded analyzeRoute_def Let_def m prod.case option.case sum.inject]
  note c = arg_cong[OF e, of climbs_f, unfolded fileData.select_convs]
  note t = arg_cong[OF e, of totalScore_f, unfolded fileData.select_convs]
  show 1: "climbs_f r = validClimbs td (detectClimbs (chunkRoute points))"
    by (rule c[symmetric])
  show "totalScore_f r = foldl (\<lambda>acc c. acc + finalScore c) 0 (climbs_f r)"
    unfolding 1 by (rule t[symmetric])
qed

lemma analyzeRoute_tpv_Inr:
  assumes "analyzeRoute_tpv points td = Inr r"
  obtains mx mn where "Math_max (map ele points) = Some mx" "Math_min (map ele points) = Some mn"
    "\<not> (\<exists>c \<in> set (validClimbs_tpv td (detectClimbs (chunkRoute points))). lengthKm c = 0)"
proof (cases "Math_max (map ele points)")
  case None
  with assms show ?thesis by (simp add: analyzeRoute_tpv_def Let_def split: if_splits)
next
  case mx: (Some mx)
  show ?thesis
  proof (cases "Math_min (map ele points)")
    case None
    with assms mx show ?thesis by (simp add: analyzeRoute_tpv_def Let_def split: if_splits)
  next
    case (Some mn)
    with assms mx that show ?thesis by (simp add: analyzeRoute_tpv_def Let_def split: if_splits)
  qed
qed

lemma analyzeRoute_tpv_fields:
  assumes "analyzeRoute_tpv points td = Inr r"
  shows "climbs_t r = validClimbs_tpv td (detectClimbs (chunkRoute points))"
    and "totalScore_t r = foldl (\<lambda>acc c. acc + finalScore c) 0 (climbs_t r)"
    and "finalProfileScore_t r =
           foldl (\<lambda>acc c. acc + finalScore c) 0
             (filter (\<lambda>c. endDist_c c \<ge> td - 25) (climbs_t r))"
    and "tpvClimbWeighting r =
           min ((if td > 0 \<and> td < 20 then totalScore_t r / td
                 else max (totalScore_t r / 100)
                        (min (if td > 0 then finalProfileScore_t r / 25 else 0) 0.8)) * 100) 100"
proof -
  from assms obtain mx mn where m: "Math_max (map ele points) = Some mx"
    "Math_min (map ele points) = Some mn"
    and z: "\<not> (\<exists>c \<in> set (validClimbs_tpv td (detectClimbs (chunkRoute points))). lengthKm c = 0)"
    by (rule analyzeRoute_tpv_Inr)
  note e = assms[unfolded analyzeRoute_tpv_def Let_def m if_not_P[OF z] prod.case option.case
      sum.inject]
  note c = arg_cong[OF e, of climbs_t, unfolded fileData_tpv.select_convs]
  note t = arg_cong[OF e, of totalScore_t, unfolded fileData_tpv.select_convs]
  note f = arg_cong[OF e, of finalProfileScore_t, unfolded fileData_tpv.select_convs]
  note w = arg_cong[OF e, of tpvClimbWeighting, unfolded fileData_tpv.select_convs]
  show 1: "climbs_t r = validClimbs_tpv td (detectClimbs (chunkRoute points))"
    by (rule c[symmetric])
  show 2: "totalScore_t r = foldl (\<lambda>acc c. acc + finalScore c) 0 (climbs_t r)"
    unfolding 1 by (rule t[symmetric])
  show 3: "finalProfileScore_t r =
           foldl (\<lambda>acc c. acc + finalScore c) 0
             (filter (\<lambda>c. endDist_c c \<ge> td - 25) (climbs_t r))"
    unfolding 1 by (rule f[symmetric])
  show "tpvClimbWeighting r =
           min ((if td > 0 \<and> td < 20 then totalScore_t r / td
                 else max (totalScore_t r / 100)
                        (min (if td > 0 then finalProfileScore_t r / 25 else 0) 0.8)) * 100) 100"
    unfolding 2 3 1 by (rule w[symmetric])
qed

lemma analyzeRoute_climbs:
  "analyzeRoute points td = Inr r \<Longrightarrow>
   climbs_f r = validClimbs td (detectClimbs (chunkRoute points))"
  by (rule analyzeRoute_fields(1))

lemma analyzeRoute_tpv_climbs:
  "analyzeRoute_tpv points td = Inr r \<Longrightarrow>
   climbs_t r = validClimbs_tpv td (detectClimbs (chunkRoute points))"
  by (rule analyzeRoute_tpv_fields(1))

subsection \<open>The sample tracks, evaluated\<close>

lemmas chunk_eval = pt_def chunkRoute_def chunkLoop.simps findChunkEnd.simps CHUNK_SIZE_def
  mkChunk_def Let_def

lemmas detect_eval = detectClimbs_def climbStep_def isUphill_def flushClimb_def

lemma twoClimbs_nondecreasing: "nondecreasing twoClimbs"
  by (simp add: nondecreasing_def twoClimbs_def pt_def)

lemma twoClimbs_chunks:
  "map (\<lambda>c. (startDist c, endDist c, gain c, gradient c)) (chunkRoute twoClimbs) =
     [(0, 1, 30, 3), (1, 2, 30, 3), (2, 3, 0, 0), (3, 4, 30, 3), (4, 5, 0, 0), (5, 6, 0, 0)]"
  by (simp add: twoClimbs_def chunk_eval)

lemma twoClimbs_detect:
  "map (\<lambda>g. (startDist_c g, endDist_c g, gain_c g, length (chunks_c g)))
     (detectClimbs (chunkRoute twoClimbs)) = [(0, 2, 60, 2), (3, 4, 30, 1)]"
  by (simp add: twoClimbs_def chunk_eval detect_eval)

text \<open>
  Claim C4. On a track whose cumulative distance never decreases, the chunks follow each
  other without gap or overlap (the end of each is the start of the next), every chunk
  is at least 0.2 km long, and what is left after the last chunk (or the whole track,
  when there is no chunk) is shorter than 0.2 km: a short tail is dropped, not emitted.
\<close>

theorem chunks_back_to_back:
  assumes "nondecreasing points"
  shows "successively (\<lambda>a b. endDist a = startDist b) (chunkRoute points) \<and>
         (\<forall>c \<in> set (chunkRoute points). 0.2 \<le> endDist c - startDist c) \<and>
         (points \<noteq> [] \<longrightarrow>
            dist_p (last points)
              - (if chunkRoute points = [] then dist_p (hd points)
                 else endDist (last (chunkRoute points))) < 0.2)"
proof (intro conjI)
  from assms have "successively linked (chunkRoute points)" by (rule chunkRoute_linked)
  then show "successively (\<lambda>a b. endDist a = startDist b) (chunkRoute points)"
    by (rule successively_mono) (simp add: linked_def)
  show "\<forall>c \<in> set (chunkRoute points). 0.2 \<le> endDist c - startDist c"
    using chunkLoop_length[of _ points 0] by (simp add: chunkRoute_def CHUNK_SIZE_def)
  show "points \<noteq> [] \<longrightarrow>
            dist_p (last points)
              - (if chunkRoute points = [] then dist_p (hd points)
                 else endDist (last (chunkRoute points))) < 0.2"
  proof
    assume "points \<noteq> []"
    then have "0 < length points" by simp
    from chunkLoop_trailing[OF assms this] \<open>points \<noteq> []\<close> show
      "dist_p (last points)
              - (if chunkRoute points = [] then dist_p (hd points)
                 else endDist (last (chunkRoute points))) < 0.2"
      by (auto simp: chunkRoute_def CHUNK_SIZE_def hd_conv_nth split: if_splits)
  qed
qed

theorem chunks_back_to_back_witness:
  "nondecreasing twoClimbs \<and>
   map (\<lambda>c. (startDist c, endDist c)) (chunkRoute twoClimbs) =
     [(0, 1), (1, 2), (2, 3), (3, 4), (4, 5), (5, 6)] \<and>
   dist_p (last twoClimbs) = 6.1 \<and>
   successively (\<lambda>a b. endDist a = startDist b) (chunkRoute twoClimbs) \<and>
   list_all (\<lambda>c. 0.2 \<le> endDist c - startDist c) (chunkRoute twoClimbs) \<and>
   dist_p (last twoClimbs) - endDist (last (chunkRoute twoClimbs)) < 0.2"
proof -
  have e: "map (\<lambda>c. (startDist c, endDist c)) (chunkRoute twoClimbs) =
     [(0, 1), (1, 2), (2, 3), (3, 4), (4, 5), (5, 6)]"
    using arg_cong[OF twoClimbs_chunks, of "map (\<lambda>(a, b, c, d). (a, b))"]
    by (simp add: comp_def)
  then have ne: "chunkRoute twoClimbs \<noteq> []" by auto
  have l: "dist_p (last twoClimbs) = 6.1" "twoClimbs \<noteq> []"
    by (simp_all add: twoClimbs_def pt_def)
  from chunks_back_to_back[OF twoClimbs_nondecreasing] ne l e twoClimbs_nondecreasing
  show ?thesis by (simp add: list_all_iff)
qed

subsection \<open>Binary64 rounding\<close>

lemma bits_bounds: "0 < n \<Longrightarrow> 2 ^ (bits n - 1) \<le> n \<and> n < 2 ^ bits n"
proof (induction n rule: bits.induct)
  case (1 n)
  show ?case
  proof (cases "n div 2 = 0")
    case True
    with "1.prems" have "n = 1" by (simp add: div_eq_0_iff)
    then show ?thesis by (simp add: bits.simps)
  next
    case False
    with "1.IH" "1.prems" have ih: "2 ^ (bits (n div 2) - 1) \<le> n div 2" "n div 2 < 2 ^ bits (n div 2)"
      by simp_all
    from False have pos: "0 < bits (n div 2)" by (subst bits.simps) simp
    from "1.prems" have b: "bits n = Suc (bits (n div 2))" by (subst bits.simps) simp
    from ih(1) pos have "2 ^ bits (n div 2) \<le> 2 * (n div 2)"
      by (cases "bits (n div 2)") simp_all
    then have lo: "2 ^ (bits n - 1) \<le> n" unfolding b by simp
    from ih(2) have "n < 2 * 2 ^ bits (n div 2)" by arith
    with lo show ?thesis unfolding b by simp
  qed
qed

lemma roundEven_err:
  assumes "0 < k"
  shows "\<bar>int (roundEven n k) * 2 ^ k - int n\<bar> \<le> 2 ^ (k - 1)"
proof -
  let ?q = "n div 2 ^ k" and ?r = "n mod 2 ^ k" and ?h = "(2::nat) ^ (k - 1)"
  have "n = ?q * 2 ^ k + ?r" by (simp only: div_mult_mod_eq)
  then have "int n = int (?q * 2 ^ k + ?r)" by (rule arg_cong)
  then have n: "int n = int ?q * 2 ^ k + int ?r" by simp
  have r: "?r < 2 ^ k" by simp
  from assms have h2: "(2::nat) ^ k = 2 * ?h" by (cases k) simp_all
  then have h2i: "(2::int) ^ k = 2 * int ?h"
    by (metis of_nat_numeral of_nat_power of_nat_mult)
  from r h2 have ri: "int ?r < 2 * int ?h" by linarith
  have hh: "int ?h = 2 ^ (k - 1)" by simp
  show ?thesis
  proof (cases "?r > ?h \<or> (?r = ?h \<and> odd ?q)")
    case True
    with assms have e: "roundEven n k = ?q + 1" by (simp add: roundEven_def)
    from True have ge: "int ?h \<le> int ?r" by auto
    have "int (?q + 1) * 2 ^ k - int n = 2 * int ?h - int ?r"
      unfolding n by (simp add: algebra_simps h2i)
    moreover from ge ri have "\<bar>2 * int ?h - int ?r\<bar> \<le> int ?h" by linarith
    ultimately show ?thesis unfolding e hh by simp
  next
    case False
    with assms have e: "roundEven n k = ?q" by (simp add: roundEven_def)
    from False have le: "int ?r \<le> int ?h" by auto
    have "int ?q * 2 ^ k - int n = - int ?r"
      unfolding n by simp
    with le show ?thesis unfolding e hh by simp
  qed
qed

lemma round53_err:
  "\<bar>val64 (round53 x) - val64 x\<bar> \<le> \<bar>val64 x\<bar> / 2 ^ 53"
proof (cases x)
  case (Pair m e)
  let ?n = "nat \<bar>m\<bar>"
  let ?k = "bits ?n - 53"
  show ?thesis
  proof (cases "bits ?n \<le> 53")
    case True
    then show ?thesis by (simp add: Pair)
  next
    case False
    then have k: "0 < ?k" by simp
    from False have npos: "0 < ?n" by (cases "?n = 0") (simp_all add: bits.simps)
    then have m0: "m \<noteq> 0" by auto
    let ?rn = "int (roundEven ?n ?k)"
    have p: "(0::real) < 2 powi e" by simp
    have "round53 x = (sgn m * ?rn, e + int ?k)"
      unfolding Pair round53.simps using False by (rule if_not_P)
    then have v: "val64 (round53 x) = real_of_int (sgn m * ?rn) * 2 powi (e + int ?k)"
      by (simp only: val64.simps)
    have pk: "(2::real) powi (e + int ?k) = 2 ^ ?k * 2 powi e"
      by (simp add: power_int_add)
    have "real_of_int m = real_of_int (sgn m) * real ?n" by (simp add: sgn_if)
    then have vx: "val64 x = real_of_int (sgn m) * real ?n * 2 powi e"
      by (simp add: Pair)
    have v': "val64 (round53 x) = real_of_int (sgn m) * (real_of_int ?rn * 2 ^ ?k) * 2 powi e"
      unfolding v pk by simp
    have "val64 (round53 x) - val64 x
          = real_of_int (sgn m) * real_of_int (?rn * 2 ^ ?k - int ?n) * 2 powi e"
      unfolding v' vx by (simp add: algebra_simps)
    then have "\<bar>val64 (round53 x) - val64 x\<bar>
          = real_of_int \<bar>?rn * 2 ^ ?k - int ?n\<bar> * 2 powi e"
      using m0 p by (simp add: abs_mult sgn_if)
    also have "\<dots> \<le> real_of_int (2 ^ (?k - 1)) * 2 powi e"
    proof (rule mult_right_mono)
      show "real_of_int \<bar>?rn * 2 ^ ?k - int ?n\<bar> \<le> real_of_int (2 ^ (?k - 1))"
        using roundEven_err[OF k, of ?n] by (simp only: of_int_le_iff)
      show "(0::real) \<le> 2 powi e" by simp
    qed
    finally have lhs: "\<bar>val64 (round53 x) - val64 x\<bar> \<le> 2 ^ (?k - 1) * 2 powi e"
      by simp
    from False have "bits ?n - 1 = ?k + 52" by arith
    with bits_bounds[OF npos] have "2 ^ (?k + 52) \<le> ?n" by (simp only:)
    then have "(2::real) ^ (?k + 52) \<le> real ?n"
      by (metis of_nat_le_iff of_nat_numeral of_nat_power)
    moreover have "real ?n = \<bar>real_of_int m\<bar>" by simp
    ultimately have "(2::real) ^ (?k + 52) * 2 powi e \<le> \<bar>val64 x\<bar>"
      using p by (simp add: Pair abs_mult)
    moreover have "(2::real) ^ (?k + 52) = 2 ^ (?k - 1) * 2 ^ 53"
    proof -
      from k have "?k + 52 = (?k - 1) + 53" by arith
      then have "(2::real) ^ (?k + 52) = 2 ^ ((?k - 1) + 53)" by (simp only:)
      also have "\<dots> = 2 ^ (?k - 1) * 2 ^ 53" by (rule power_add)
      finally show ?thesis .
    qed
    ultimately have "2 ^ (?k - 1) * 2 powi e \<le> \<bar>val64 x\<bar> / 2 ^ 53"
      by (simp add: field_simps)
    with lhs show ?thesis by linarith
  qed
qed

lemma add64_exact:
  "val64 (m1 * 2 ^ nat (e1 - min e1 e2) + m2 * 2 ^ nat (e2 - min e1 e2), min e1 e2)
   = val64 (m1, e1) + val64 (m2, e2)"
proof -
  have a: "(2::real) ^ nat (e1 - min e1 e2) * 2 powi min e1 e2 = 2 powi e1"
    by (simp add: power_int_add[symmetric] flip: power_int_of_nat)
  have b: "(2::real) ^ nat (e2 - min e1 e2) * 2 powi min e1 e2 = 2 powi e2"
    by (simp add: power_int_add[symmetric] flip: power_int_of_nat)
  have "val64 (m1 * 2 ^ nat (e1 - min e1 e2) + m2 * 2 ^ nat (e2 - min e1 e2), min e1 e2)
      = real_of_int m1 * ((2::real) ^ nat (e1 - min e1 e2) * 2 powi min e1 e2)
        + real_of_int m2 * ((2::real) ^ nat (e2 - min e1 e2) * 2 powi min e1 e2)"
    by (simp add: algebra_simps)
  then show ?thesis unfolding a b by simp
qed

lemma add64_err:
  "\<bar>val64 (add64 x y) - (val64 x + val64 y)\<bar> \<le> \<bar>val64 x + val64 y\<bar> / 2 ^ 53"
proof (cases x; cases y)
  fix m1 e1 m2 e2 assume x: "x = (m1, e1)" and y: "y = (m2, e2)"
  show ?thesis
    unfolding x y add64.simps
    using round53_err[of "(m1 * 2 ^ nat (e1 - min e1 e2) + m2 * 2 ^ nat (e2 - min e1 e2), min e1 e2)"]
    unfolding add64_exact .
qed

lemma sub64_err:
  "\<bar>val64 (sub64 x y) - (val64 x - val64 y)\<bar> \<le> \<bar>val64 x - val64 y\<bar> / 2 ^ 53"
proof (cases y)
  case (Pair m2 e2)
  have "val64 (- m2, e2) = - val64 (m2, e2)" by simp
  with add64_err[of x "(- m2, e2)"] show ?thesis by (simp add: Pair)
qed

lemma rounded_positive:
  assumes "0 < s" and "\<bar>r - s\<bar> \<le> \<bar>s\<bar> / 2 ^ 53"
  shows "s * (1 - unit64) \<le> r \<and> r \<le> s * (1 + unit64)"
proof -
  from assms have "\<bar>r - s\<bar> \<le> s * unit64" by (simp add: unit64_def)
  then show ?thesis by (simp add: algebra_simps abs_le_iff)
qed

lemma unit64_range: "0 < unit64" "unit64 < 1"
  by (simp_all add: unit64_def)

lemma acc_step:
  assumes X: "0 < X" and d: "0 < d" and p: "1 \<le> p"
    and a: "X * (1 - unit64) ^ p \<le> a" "a \<le> X * (1 + unit64) ^ p"
    and g: "d * (1 - unit64) \<le> g" "g \<le> d * (1 + unit64)"
    and r: "\<bar>r - (a + g)\<bar> \<le> \<bar>a + g\<bar> / 2 ^ 53"
  shows "(X + d) * (1 - unit64) ^ Suc p \<le> r \<and> r \<le> (X + d) * (1 + unit64) ^ Suc p"
proof -
  note u = unit64_range
  from u have lo1: "0 < 1 - unit64" and lo2: "1 - unit64 \<le> 1" and hi1: "1 \<le> 1 + unit64"
    by simp_all
  from p have "1 + unit64 \<le> (1 + unit64) ^ p"
    using self_le_power[OF hi1, of p] by simp
  with d have "d * (1 + unit64) \<le> d * (1 + unit64) ^ p"
    by (intro mult_left_mono) simp_all
  with g(2) a(2) have up: "a + g \<le> (X + d) * (1 + unit64) ^ p"
    by (simp add: algebra_simps)
  from p lo1 lo2 have "(1 - unit64) ^ p \<le> (1 - unit64) ^ 1"
    by (intro power_decreasing) simp_all
  with d have "d * (1 - unit64) ^ p \<le> d * (1 - unit64)"
    by (intro mult_left_mono) simp_all
  with g(1) a(1) have dn: "(X + d) * (1 - unit64) ^ p \<le> a + g"
    by (simp add: algebra_simps)
  from X d lo1 have "0 < (X + d) * (1 - unit64) ^ p" by simp
  with dn have s: "0 < a + g" by linarith
  from rounded_positive[OF s r]
  have r1: "(a + g) * (1 - unit64) \<le> r" and r2: "r \<le> (a + g) * (1 + unit64)"
    by simp_all
  from dn lo1 have "(X + d) * (1 - unit64) ^ p * (1 - unit64) \<le> (a + g) * (1 - unit64)"
    by (intro mult_right_mono) simp_all
  with r1 have A: "(X + d) * (1 - unit64) ^ Suc p \<le> r"
    by (simp add: mult.assoc mult.commute[of "1 - unit64"])
  from up hi1 have "(a + g) * (1 + unit64) \<le> (X + d) * (1 + unit64) ^ p * (1 + unit64)"
    by (intro mult_right_mono) simp_all
  with r2 have B: "r \<le> (X + d) * (1 + unit64) ^ Suc p"
    by (simp add: mult.assoc mult.commute[of "1 + unit64"])
  from A B show ?thesis ..
qed

lemma accumulate_bound:
  assumes "successively (\<lambda>a b. val64 a < val64 b) (x # ys)"
    and "e0 < val64 x" and "1 \<le> p"
    and "(val64 x - e0) * (1 - unit64) ^ p \<le> val64 acc"
    and "val64 acc \<le> (val64 x - e0) * (1 + unit64) ^ p"
  shows "(val64 (last (x # ys)) - e0) * (1 - unit64) ^ (p + length ys)
           \<le> val64 (foldl add64 acc (chunkGains64 (x # ys))) \<and>
         val64 (foldl add64 acc (chunkGains64 (x # ys)))
           \<le> (val64 (last (x # ys)) - e0) * (1 + unit64) ^ (p + length ys)"
  using assms
proof (induction ys arbitrary: x acc p)
  case Nil
  then show ?case by simp
next
  case (Cons y ys)
  from Cons.prems(1) have xy: "val64 x < val64 y"
    and rest: "successively (\<lambda>a b. val64 a < val64 b) (y # ys)"
    by simp_all
  let ?g = "chunkGain64 x y"
  let ?acc = "add64 acc ?g"
  have d: "0 < val64 y - val64 x" using xy by simp
  have g: "(val64 y - val64 x) * (1 - unit64) \<le> val64 ?g"
    "val64 ?g \<le> (val64 y - val64 x) * (1 + unit64)"
    using rounded_positive[OF d sub64_err[of y x]] by (simp_all add: chunkGain64_def)
  have X: "0 < val64 x - e0" using Cons.prems(2) by simp
  from acc_step[OF X d Cons.prems(3) Cons.prems(4) Cons.prems(5) g add64_err[of acc ?g]]
  have b: "(val64 y - e0) * (1 - unit64) ^ Suc p \<le> val64 ?acc"
    "val64 ?acc \<le> (val64 y - e0) * (1 + unit64) ^ Suc p"
    by simp_all
  from xy Cons.prems(2) have e: "e0 < val64 y" by simp
  have "1 \<le> Suc p" by simp
  from Cons.IH[OF rest e this b] show ?case by simp
qed

lemma climbGain64_bound:
  assumes "successively (\<lambda>a b. val64 a < val64 b) es" and "2 \<le> length es"
  shows "\<exists>a. climbGain64 (chunkGains64 es) = Some a \<and>
           (val64 (last es) - val64 (hd es)) * (1 - unit64) ^ (length es - 1) \<le> val64 a \<and>
           val64 a \<le> (val64 (last es) - val64 (hd es)) * (1 + unit64) ^ (length es - 1)"
proof -
  from assms(2) obtain x y ys where es: "es = x # y # ys"
    by (cases es; cases "tl es") auto
  from assms(1) have xy: "val64 x < val64 y"
    and rest: "successively (\<lambda>a b. val64 a < val64 b) (y # ys)"
    by (simp_all add: es)
  have d: "0 < val64 y - val64 x" using xy by simp
  have g: "(val64 y - val64 x) * (1 - unit64) ^ 1 \<le> val64 (chunkGain64 x y)"
    "val64 (chunkGain64 x y) \<le> (val64 y - val64 x) * (1 + unit64) ^ 1"
    using rounded_positive[OF d sub64_err[of y x]] by (simp_all add: chunkGain64_def)
  from accumulate_bound[OF rest xy _ g]
  have "(val64 (last (y # ys)) - val64 x) * (1 - unit64) ^ (1 + length ys)
           \<le> val64 (foldl add64 (chunkGain64 x y) (chunkGains64 (y # ys))) \<and>
         val64 (foldl add64 (chunkGain64 x y) (chunkGains64 (y # ys)))
           \<le> (val64 (last (y # ys)) - val64 x) * (1 + unit64) ^ (1 + length ys)"
    by simp
  then show ?thesis by (simp add: es climbGain64_def)
qed

lemma detect_uphill_inv:
  "list_all (\<lambda>g. list_all isUphill (chunks_c g)) climbs \<Longrightarrow>
   (case cur of None \<Rightarrow> True | Some g \<Rightarrow> list_all isUphill (chunks_c g)) \<Longrightarrow>
   list_all (\<lambda>g. list_all isUphill (chunks_c g)) (flushClimb (foldl climbStep (climbs, cur) rest))"
proof (induction rest arbitrary: climbs cur)
  case Nil
  then show ?case by (cases cur) (simp_all add: flushClimb_def)
next
  case (Cons x xs)
  then show ?case
    by (cases cur; cases "isUphill x") (simp_all add: climbStep_cases)
qed

lemma detectClimbs_uphill:
  "g \<in> set (detectClimbs chunks) \<Longrightarrow> c \<in> set (chunks_c g) \<Longrightarrow> isUphill c"
  using detect_uphill_inv[where climbs = "[]" and cur = None and rest = chunks]
  by (simp add: detectClimbs_def list_all_iff)

lemma uphill_chunk_rises:
  assumes "c \<in> set (chunkLoop points i [])" and "isUphill c"
  shows "startEle c < endEle c"
proof (rule ccontr)
  assume "\<not> startEle c < endEle c"
  from chunkLoop_chunks[OF assms(1)] obtain a b where
    c: "c = mkChunk (points ! a) (points ! b)"
    and len: "CHUNK_SIZE \<le> dist_p (points ! b) - dist_p (points ! a)"
    by blast
  from len have pos: "0 < (dist_p (points ! b) - dist_p (points ! a)) * 1000"
    by (simp add: CHUNK_SIZE_def)
  from \<open>\<not> startEle c < endEle c\<close> have "ele (points ! b) - ele (points ! a) \<le> 0"
    by (simp add: c mkChunk_sel)
  then have "(ele (points ! b) - ele (points ! a))
                   / ((dist_p (points ! b) - dist_p (points ! a)) * 1000) \<le> 0"
    using pos by (rule divide_nonpos_pos)
  then have "(ele (points ! b) - ele (points ! a))
                   / ((dist_p (points ! b) - dist_p (points ! a)) * 1000) * 100 \<le> 0"
    by (rule mult_nonpos_nonneg) simp
  then have "gradient c \<le> 0"
    by (simp only: c mkChunk_gradient)
  with assms(2) show False by (simp add: isUphill_def)
qed

lemma boundaryEle_rising:
  "successively linked (c # cs) \<Longrightarrow> \<forall>d \<in> set (c # cs). startEle d < endEle d \<Longrightarrow>
   successively (<) (startEle c # map endEle (c # cs))"
proof (induction cs arbitrary: c)
  case Nil
  then show ?case by simp
next
  case (Cons d ds)
  from Cons.prems(1) have cd: "endEle c = startEle d" and l: "successively linked (d # ds)"
    by (simp_all add: linked_def)
  from Cons.prems(2) have c: "startEle c < endEle c"
    and r: "\<forall>x \<in> set (d # ds). startEle x < endEle x" by simp_all
  from Cons.IH[OF l r] have "successively (<) (endEle c # map endEle (d # ds))"
    by (simp only: cd)
  with c show ?case by simp
qed

lemma roundingTrack_nondecreasing: "nondecreasing roundingTrack"
  by (simp add: nondecreasing_def roundingTrack_def pt_def)

lemma roundingTrack_detect:
  "map (\<lambda>g. (startDist_c g, endDist_c g, gain_c g, boundaryEle (chunks_c g)))
     (detectClimbs (chunkRoute roundingTrack)) =
   [(0, 0.5, val64 ele_20_1 - val64 ele_0_1, map val64 [ele_0_1, ele_7_2, ele_20_1])]"
  by (simp add: roundingTrack_def chunk_eval detect_eval boundaryEle_def
      ele_0_1_def ele_7_2_def ele_20_1_def)

lemma roundingTrack_gain64:
  "climbGain64 (chunkGains64 [ele_0_1, ele_7_2, ele_20_1]) = Some (5629499534213121, - 48)"
  "sub64 ele_20_1 ele_0_1 = (5629499534213120, - 48)"
  by (simp_all add: climbGain64_def chunkGain64_def ele_0_1_def ele_7_2_def ele_20_1_def
      roundEven_def bits.simps)

text \<open>
  Claim C10, as amended. On a track whose cumulative distance never decreases, the
  chunks of every detected climb share their boundary points, and in exact arithmetic
  the gain of the climb, which is the sum of the gains of its chunks (each the end
  elevation minus the start elevation of the chunk), equals the elevation of the point
  where the climb ends minus the elevation of the point where it starts: the sum
  telescopes and whatever happens between the boundary points cancels. In binary64,
  where each subtraction and each addition is rounded, the gain accumulated over the
  \<open>n\<close> chunks of the climb lies between that difference times \<open>(1 - 2^-53)^n\<close> and that
  difference times \<open>(1 + 2^-53)^n\<close>.
\<close>

theorem climb_gain_up_to_rounding:
  assumes nd: "nondecreasing points"
    and g: "g \<in> set (detectClimbs (chunkRoute points))"
  shows "successively linked (chunks_c g) \<and>
         gain_c g = sum_list (map gain (chunks_c g)) \<and>
         (\<forall>c \<in> set (chunks_c g). gain c = endEle c - startEle c) \<and>
         gain_c g = endEle (last (chunks_c g)) - startEle (hd (chunks_c g)) \<and>
         (\<exists>i j. i < j \<and> j < length points \<and>
                startDist_c g = dist_p (points ! i) \<and> endDist_c g = dist_p (points ! j) \<and>
                gain_c g = ele (points ! j) - ele (points ! i)) \<and>
         (\<forall>es. map val64 es = boundaryEle (chunks_c g) \<longrightarrow>
            (\<exists>a. climbGain64 (chunkGains64 es) = Some a \<and>
                 gain_c g * (1 - unit64) ^ length (chunks_c g) \<le> val64 a \<and>
                 val64 a \<le> gain_c g * (1 + unit64) ^ length (chunks_c g)))"
proof -
  from detect_route_wf[OF nd] g have wf: "wfSegment g" by (simp add: list_all_iff)
  then have ne: "chunks_c g \<noteq> []" and lk: "successively linked (chunks_c g)"
    and st: "startDist_c g = startDist (hd (chunks_c g))"
    and en: "endDist_c g = endDist (last (chunks_c g))"
    and sm: "gain_c g = sum_list (map gain (chunks_c g))"
    by (simp_all add: wfSegment_def)
  from g have sub: "set (chunks_c g) \<subseteq> set (chunkLoop points 0 [])"
    using detectClimbs_subset[of g "chunkRoute points"] by (simp add: chunkRoute_def)
  then have gains: "\<forall>c \<in> set (chunks_c g). gain c = endEle c - startEle c"
    using chunkLoop_gain[of _ points 0] by blast
  then have tel: "gain_c g = endEle (last (chunks_c g)) - startEle (hd (chunks_c g))"
    using telescope[OF ne lk] sm by (simp add: list_all_iff)
  from ne sub have "hd (chunks_c g) \<in> set (chunkLoop points 0 [])"
    and "last (chunks_c g) \<in> set (chunkLoop points 0 [])"
    by auto
  then obtain a b a' b' where
    h: "a < b" "b < length points" "hd (chunks_c g) = mkChunk (points ! a) (points ! b)"
    and l: "a' < b'" "b' < length points" "last (chunks_c g) = mkChunk (points ! a') (points ! b')"
    using chunkLoop_chunks[of _ points 0] by meson
  from detect_route_ordered[OF nd] g have "startDist_c g + CHUNK_SIZE \<le> endDist_c g"
    by (simp add: climbsOrdered_def list_all_iff)
  with st en h l have lt: "dist_p (points ! a) < dist_p (points ! b')"
    by (simp add: mkChunk_sel CHUNK_SIZE_def)
  have "a < b'"
  proof (rule ccontr)
    assume "\<not> a < b'"
    then have "b' \<le> a" by simp
    moreover from h have "a < length points" by simp
    ultimately have "dist_p (points ! b') \<le> dist_p (points ! a)"
      using nd by (intro nondecreasing_nth)
    with lt show False by simp
  qed
  with l st en tel h have
    "a < b' \<and> b' < length points \<and>
     startDist_c g = dist_p (points ! a) \<and> endDist_c g = dist_p (points ! b') \<and>
     gain_c g = ele (points ! b') - ele (points ! a)"
    by (simp add: mkChunk_sel)
  then have pts: "\<exists>i j. i < j \<and> j < length points \<and>
                startDist_c g = dist_p (points ! i) \<and> endDist_c g = dist_p (points ! j) \<and>
                gain_c g = ele (points ! j) - ele (points ! i)"
    by blast
  have rise: "\<forall>c \<in> set (chunks_c g). startEle c < endEle c"
    using sub detectClimbs_uphill[OF g] uphill_chunk_rises[of _ points 0] by blast
  from ne obtain c cs where ccs: "chunks_c g = c # cs" by (cases "chunks_c g") auto
  have b64: "\<exists>a. climbGain64 (chunkGains64 es) = Some a \<and>
                 gain_c g * (1 - unit64) ^ length (chunks_c g) \<le> val64 a \<and>
                 val64 a \<le> gain_c g * (1 + unit64) ^ length (chunks_c g)"
    if es: "map val64 es = boundaryEle (chunks_c g)" for es
  proof -
    from es have m: "map val64 es = startEle c # map endEle (c # cs)"
      by (simp add: boundaryEle_def ccs)
    from lk rise have "successively (<) (startEle c # map endEle (c # cs))"
      unfolding ccs by (rule boundaryEle_rising)
    then have "successively (<) (map val64 es)" by (simp only: m)
    then have s: "successively (\<lambda>a b. val64 a < val64 b) es"
      by (simp add: successively_map)
    have "length (map val64 es) = length (startEle c # map endEle (c # cs))"
      by (simp only: m)
    then have len: "length es = length (chunks_c g) + 1"
      by (simp add: ccs)
    then have two: "2 \<le> length es" using ne by (cases "chunks_c g") simp_all
    from len have nees: "es \<noteq> []" by auto
    have "val64 (hd es) = hd (map val64 es)" using nees by (simp add: hd_map)
    then have hd: "val64 (hd es) = startEle (hd (chunks_c g))" by (simp add: m ccs)
    have "val64 (last es) = last (map val64 es)" using nees by (simp add: last_map)
    also have "\<dots> = last (map endEle (c # cs))" unfolding m by simp
    also have "\<dots> = endEle (last (chunks_c g))" by (simp add: last_map ccs)
    finally have la: "val64 (last es) = endEle (last (chunks_c g))" .
    from climbGain64_bound[OF s two] show ?thesis
      unfolding hd la len tel by simp
  qed
  from lk sm gains tel pts b64 show ?thesis by blast
qed

theorem climb_gain_up_to_rounding_witness:
  "nondecreasing twoClimbs \<and>
   map (\<lambda>g. (startDist_c g, endDist_c g, gain_c g, length (chunks_c g)))
     (detectClimbs (chunkRoute twoClimbs)) = [(0, 2, 60, 2), (3, 4, 30, 1)] \<and>
   hd (detectClimbs (chunkRoute twoClimbs)) \<in> set (detectClimbs (chunkRoute twoClimbs)) \<and>
   gain_c (hd (detectClimbs (chunkRoute twoClimbs))) =
     sum_list (map gain (chunks_c (hd (detectClimbs (chunkRoute twoClimbs))))) \<and>
   dist_p (twoClimbs ! 0) = 0 \<and> dist_p (twoClimbs ! 4) = 2 \<and>
   gain_c (hd (detectClimbs (chunkRoute twoClimbs))) = ele (twoClimbs ! 4) - ele (twoClimbs ! 0) \<and>
   nondecreasing roundingTrack \<and>
   hd (detectClimbs (chunkRoute roundingTrack)) \<in> set (detectClimbs (chunkRoute roundingTrack)) \<and>
   map val64 [ele_0_1, ele_7_2, ele_20_1] =
     boundaryEle (chunks_c (hd (detectClimbs (chunkRoute roundingTrack)))) \<and>
   length (chunks_c (hd (detectClimbs (chunkRoute roundingTrack)))) = 2 \<and>
   gain_c (hd (detectClimbs (chunkRoute roundingTrack))) = val64 ele_20_1 - val64 ele_0_1 \<and>
   climbGain64 (chunkGains64 [ele_0_1, ele_7_2, ele_20_1]) = Some (5629499534213121, - 48) \<and>
   (val64 ele_20_1 - val64 ele_0_1) * (1 - unit64) ^ 2 \<le> val64 (5629499534213121, - 48) \<and>
   val64 (5629499534213121, - 48) \<le> (val64 ele_20_1 - val64 ele_0_1) * (1 + unit64) ^ 2"
proof -
  let ?D = "detectClimbs (chunkRoute roundingTrack)"
  let ?g = "hd ?D"
  let ?es = "[ele_0_1, ele_7_2, ele_20_1]"
  have ne: "?D \<noteq> []" using roundingTrack_detect by auto
  then have m: "?g \<in> set ?D" by simp
  have "hd (map (\<lambda>g. (startDist_c g, endDist_c g, gain_c g, boundaryEle (chunks_c g))) ?D)
        = (0, 0.5, val64 ele_20_1 - val64 ele_0_1, map val64 ?es)"
    by (simp only: roundingTrack_detect list.sel)
  with ne have v: "gain_c ?g = val64 ele_20_1 - val64 ele_0_1"
    and b: "map val64 ?es = boundaryEle (chunks_c ?g)"
    by (simp_all add: hd_map)
  from climb_gain_up_to_rounding[OF roundingTrack_nondecreasing m] b
  obtain a where a: "climbGain64 (chunkGains64 ?es) = Some a"
    "gain_c ?g * (1 - unit64) ^ length (chunks_c ?g) \<le> val64 a"
    "val64 a \<le> gain_c ?g * (1 + unit64) ^ length (chunks_c ?g)"
    by blast
  from a(1) have a': "a = (5629499534213121, - 48)"
    unfolding roundingTrack_gain64(1) by simp
  have "length (boundaryEle (chunks_c ?g)) = length (map val64 ?es)" by (simp only: b)
  then have len: "length (chunks_c ?g) = 2"
    by (cases "chunks_c ?g") (simp_all add: boundaryEle_def)
  from a(2,3) have "(val64 ele_20_1 - val64 ele_0_1) * (1 - unit64) ^ 2
      \<le> val64 (5629499534213121, - 48)"
    and "val64 (5629499534213121, - 48) \<le> (val64 ele_20_1 - val64 ele_0_1) * (1 + unit64) ^ 2"
    unfolding a' len v by simp_all
  note bounds = this
  let ?t = "hd (detectClimbs (chunkRoute twoClimbs))"
  have tne: "detectClimbs (chunkRoute twoClimbs) \<noteq> []"
    using twoClimbs_detect by auto
  then have tm: "?t \<in> set (detectClimbs (chunkRoute twoClimbs))" by simp
  have tv: "gain_c ?t = 60"
    using arg_cong[OF twoClimbs_detect, of "\<lambda>xs. fst (snd (snd (hd xs)))"] tne
    by (simp add: hd_map)
  have tp: "dist_p (twoClimbs ! 0) = 0" "dist_p (twoClimbs ! 4) = 2"
    "ele (twoClimbs ! 4) - ele (twoClimbs ! 0) = 60"
    by (simp_all add: twoClimbs_def pt_def)
  from climb_gain_up_to_rounding[OF twoClimbs_nondecreasing tm] tv tp
  have ts: "gain_c ?t = sum_list (map gain (chunks_c ?t))"
    and te: "gain_c ?t = ele (twoClimbs ! 4) - ele (twoClimbs ! 0)"
    by simp_all
  from twoClimbs_nondecreasing twoClimbs_detect tm ts tp(1,2) te
    bounds roundingTrack_nondecreasing m b len v roundingTrack_gain64(1) show ?thesis
    by (intro conjI)
qed

text \<open>
  Claim C10, as stated, fails in the arithmetic of the code. The track has one climb, of
  two chunks, over the elevations 0.1, 7.2 and 20.1 (the nearest binary64 numbers). Its
  accumulated gain is (7.2 - 0.1) + (20.1 - 7.2) = 20.000000000000004 in binary64,
  which is neither the binary64 difference 20.1 - 0.1 = 20 nor the exact difference of
  the two elevations.
\<close>

theorem climb_gain_rounding_counterexample:
  "map (\<lambda>g. boundaryEle (chunks_c g)) (detectClimbs (chunkRoute roundingTrack)) =
     [map val64 [ele_0_1, ele_7_2, ele_20_1]] \<and>
   climbGain64 (chunkGains64 [ele_0_1, ele_7_2, ele_20_1]) = Some (5629499534213121, - 48) \<and>
   sub64 ele_20_1 ele_0_1 = (5629499534213120, - 48) \<and>
   val64 (5629499534213120, - 48) = 20 \<and>
   val64 (5629499534213121, - 48) \<noteq> val64 (5629499534213120, - 48) \<and>
   val64 (5629499534213121, - 48) \<noteq> val64 ele_20_1 - val64 ele_0_1"
proof -
  have "map (\<lambda>g. boundaryEle (chunks_c g)) (detectClimbs (chunkRoute roundingTrack)) =
     [map val64 [ele_0_1, ele_7_2, ele_20_1]]"
    using arg_cong[OF roundingTrack_detect, of "map (\<lambda>(a, b, c, d). d)"]
    by (simp add: comp_def)
  moreover have "val64 (5629499534213120, - 48) = 20"
    "val64 (5629499534213121, - 48) \<noteq> val64 (5629499534213120, - 48)"
    "val64 (5629499534213121, - 48) \<noteq> val64 ele_20_1 - val64 ele_0_1"
    by (simp_all add: ele_0_1_def ele_20_1_def)
  ultimately show ?thesis using roundingTrack_gain64 by (intro conjI)
qed

lemma analyzeRoute_returns:
  "points \<noteq> [] \<Longrightarrow> \<exists>r. analyzeRoute points td = Inr r"
  by (cases points) (simp_all add: analyzeRoute_def Let_def Math_max_def Math_min_def)

lemma twoClimbs_valid:
  "map (\<lambda>c. (id_c c, startDist_c c, endDist_c c, gain_c c, lengthKm c, gradientAvg c))
     (validClimbs 6.1 (detectClimbs (chunkRoute twoClimbs))) =
   [(1, 0, 2, 60, 2, 3), (2, 3, 4, 30, 1, 3)]"
  by (simp add: twoClimbs_def chunk_eval detect_eval validClimbs_def scoreClimb_def
      Math_max_def enumerate_eq_zip)

text \<open>
  Claim C6. In the result of an analysis of a track whose cumulative distance never
  decreases, every climb ends no later than the next one starts, and starts strictly
  before the next one starts.
\<close>

theorem climbs_ordered_disjoint:
  assumes "nondecreasing points" and "analyzeRoute points td = Inr r"
    and "Suc i < length (climbs_f r)"
  shows "endDist_c (climbs_f r ! i) \<le> startDist_c (climbs_f r ! Suc i) \<and>
         startDist_c (climbs_f r ! i) < startDist_c (climbs_f r ! Suc i)"
proof -
  from assms(1) have "climbsOrdered (detectClimbs (chunkRoute points))"
    by (rule detect_route_ordered)
  then have "climbsOrdered (validClimbs td (detectClimbs (chunkRoute points)))"
    by (rule validClimbs_ordered)
  with assms(2) have "climbsOrdered (climbs_f r)"
    by (simp add: analyzeRoute_climbs)
  then show ?thesis using assms(3) by (rule climbsOrdered_adjacent)
qed

theorem climbs_ordered_disjoint_witness:
  "nondecreasing twoClimbs \<and>
   (\<exists>r. analyzeRoute twoClimbs 6.1 = Inr r \<and>
        map (\<lambda>c. (startDist_c c, endDist_c c)) (climbs_f r) = [(0, 2), (3, 4)] \<and>
        Suc 0 < length (climbs_f r) \<and>
        endDist_c (climbs_f r ! 0) \<le> startDist_c (climbs_f r ! Suc 0) \<and>
        startDist_c (climbs_f r ! 0) < startDist_c (climbs_f r ! Suc 0))"
proof -
  have "twoClimbs \<noteq> []" by (simp add: twoClimbs_def)
  then obtain r where r: "analyzeRoute twoClimbs 6.1 = Inr r"
    using analyzeRoute_returns by blast
  then have c: "climbs_f r = validClimbs 6.1 (detectClimbs (chunkRoute twoClimbs))"
    by (rule analyzeRoute_climbs)
  have m: "map (\<lambda>c. (startDist_c c, endDist_c c)) (climbs_f r) = [(0, 2), (3, 4)]"
    unfolding c
    using arg_cong[OF twoClimbs_valid, of "map (\<lambda>(a, b, c, d). (b, c))"]
    by (simp add: comp_def)
  have "length (climbs_f r) = length (map (\<lambda>c. (startDist_c c, endDist_c c)) (climbs_f r))"
    by simp
  also have "\<dots> = 2" unfolding m by simp
  finally have l: "Suc 0 < length (climbs_f r)" by simp
  from climbs_ordered_disjoint[OF twoClimbs_nondecreasing r l] twoClimbs_nondecreasing r m l
  show ?thesis by simp
qed

text \<open>
  Claim C9. The average gradient of a scored climb is gain / (lengthKm * 1000) * 100 when
  lengthKm is positive and 0 otherwise, with lengthKm the end minus the start of the
  climb: a guard, not an error. In the result of an analysis of a track whose
  cumulative distance never decreases every climb is at least 0.2 km long, so the guard
  never fires there and the average gradient is the quotient. The same holds of the
  results of \<open>analyzeRoute_tpv\<close>, whose scoring has no guard.
\<close>

theorem gradientAvg_guard:
  "lengthKm (scoreClimb td g index) = endDist_c g - startDist_c g \<and>
   gradientAvg (scoreClimb td g index) =
     (if lengthKm (scoreClimb td g index) > 0
      then (gain_c g / (lengthKm (scoreClimb td g index) * 1000)) * 100 else 0) \<and>
   (nondecreasing points \<longrightarrow> analyzeRoute points td = Inr r \<longrightarrow>
      (\<forall>c \<in> set (climbs_f r).
         0.2 \<le> lengthKm c \<and> lengthKm c = endDist_c c - startDist_c c \<and>
         gradientAvg c = (gain_c c / (lengthKm c * 1000)) * 100)) \<and>
   (nondecreasing points \<longrightarrow> analyzeRoute_tpv points td = Inr r' \<longrightarrow>
      (\<forall>c \<in> set (climbs_t r').
         0.2 \<le> lengthKm c \<and> lengthKm c = endDist_c c - startDist_c c \<and>
         gradientAvg c = (gain_c c / (lengthKm c * 1000)) * 100))"
proof (intro conjI impI ballI)
  show "lengthKm (scoreClimb td g index) = endDist_c g - startDist_c g"
    by (simp add: scoreClimb_def Let_def)
  show "gradientAvg (scoreClimb td g index) =
     (if lengthKm (scoreClimb td g index) > 0
      then (gain_c g / (lengthKm (scoreClimb td g index) * 1000)) * 100 else 0)"
    by (simp add: scoreClimb_def Let_def)
next
  fix c
  assume nd: "nondecreasing points" and r: "analyzeRoute points td = Inr r"
    and c: "c \<in> set (climbs_f r)"
  let ?gs = "detectClimbs (chunkRoute points)"
  from nd have "climbsOrdered (validClimbs td ?gs)"
    by (intro validClimbs_ordered detect_route_ordered)
  with r c have len: "startDist_c c + CHUNK_SIZE \<le> endDist_c c"
    by (simp add: analyzeRoute_climbs climbsOrdered_def list_all_iff)
  from r c have "c \<in> set (validClimbs td ?gs)" by (simp add: analyzeRoute_climbs)
  then obtain g k where ck: "c = scoreClimb td g k"
    by (auto simp: validClimbs_def)
  from len show "0.2 \<le> lengthKm c"
    unfolding ck by (simp add: scoreClimb_sel CHUNK_SIZE_def)
  show "lengthKm c = endDist_c c - startDist_c c"
    unfolding ck by (simp add: scoreClimb_sel)
  from len show "gradientAvg c = (gain_c c / (lengthKm c * 1000)) * 100"
    unfolding ck by (simp add: scoreClimb_def Let_def CHUNK_SIZE_def)
next
  fix c
  assume nd: "nondecreasing points" and r: "analyzeRoute_tpv points td = Inr r'"
    and c: "c \<in> set (climbs_t r')"
  let ?gs = "detectClimbs (chunkRoute points)"
  from nd have "climbsOrdered (validClimbs_tpv td ?gs)"
    by (intro validClimbs_tpv_ordered detect_route_ordered)
  with r c have len: "startDist_c c + CHUNK_SIZE \<le> endDist_c c"
    by (simp add: analyzeRoute_tpv_climbs climbsOrdered_def list_all_iff)
  from r c have "c \<in> set (validClimbs_tpv td ?gs)" by (simp add: analyzeRoute_tpv_climbs)
  then obtain g where ck: "c = scoreClimb_tpv td g"
    by (auto simp: validClimbs_tpv_def)
  from len show "0.2 \<le> lengthKm c"
    unfolding ck by (simp add: scoreClimb_tpv_sel CHUNK_SIZE_def)
  show "lengthKm c = endDist_c c - startDist_c c"
    unfolding ck by (simp add: scoreClimb_tpv_sel)
  show "gradientAvg c = (gain_c c / (lengthKm c * 1000)) * 100"
    unfolding ck
    by (simp only: scoreClimb_tpv_def Let_def scored.select_convs segment.select_convs)
qed

theorem gradientAvg_guard_witness:
  "nondecreasing twoClimbs \<and>
   (\<exists>r. analyzeRoute twoClimbs 6.1 = Inr r \<and>
        map (\<lambda>c. (gain_c c, lengthKm c, gradientAvg c)) (climbs_f r) = [(60, 2, 3), (30, 1, 3)] \<and>
        list_all (\<lambda>c. 0.2 \<le> lengthKm c \<and> lengthKm c = endDist_c c - startDist_c c \<and>
                    gradientAvg c = (gain_c c / (lengthKm c * 1000)) * 100) (climbs_f r))"
proof -
  have "twoClimbs \<noteq> []" by (simp add: twoClimbs_def)
  then obtain r where r: "analyzeRoute twoClimbs 6.1 = Inr r"
    using analyzeRoute_returns by blast
  then have c: "climbs_f r = validClimbs 6.1 (detectClimbs (chunkRoute twoClimbs))"
    by (rule analyzeRoute_climbs)
  have m: "map (\<lambda>c. (gain_c c, lengthKm c, gradientAvg c)) (climbs_f r) = [(60, 2, 3), (30, 1, 3)]"
    unfolding c
    using arg_cong[OF twoClimbs_valid, of "map (\<lambda>(a, b, c, d). d)"]
    by (simp add: comp_def)
  have "\<forall>c \<in> set (climbs_f r).
          0.2 \<le> lengthKm c \<and> lengthKm c = endDist_c c - startDist_c c \<and>
          gradientAvg c = (gain_c c / (lengthKm c * 1000)) * 100"
    using gradientAvg_guard[where td = "6.1" and points = twoClimbs and r = r]
      twoClimbs_nondecreasing r by blast
  then have "list_all (\<lambda>c. 0.2 \<le> lengthKm c \<and> lengthKm c = endDist_c c - startDist_c c \<and>
                    gradientAvg c = (gain_c c / (lengthKm c * 1000)) * 100) (climbs_f r)"
    by (simp only: list_all_iff)
  with twoClimbs_nondecreasing r m show ?thesis
    by - (intro conjI exI[of _ r]; assumption)
qed

lemma fiveClimbs_valid:
  "map (\<lambda>c. (endDist_c c, distFromFinish c, multiplier c, rawScore c, finalScore c))
     (validClimbs 100 (detectClimbs (chunkRoute fiveClimbs))) =
   [(1, 99, 0.2, 2.25, 0.45), (25, 75, 0.4, 2.25, 0.9), (50, 50, 0.6, 2.25, 1.35),
    (75, 25, 0.8, 2.25, 1.8), (90, 10, 1, 2.25, 2.25)]"
  by (simp add: fiveClimbs_def chunk_eval detect_eval validClimbs_def scoreClimb_def
      Math_max_def enumerate_eq_zip power2_eq_square)

text \<open>
  Claim C3. For every climb of an analysis result, distFromFinish is the total distance
  minus the end of the climb; the multiplier is 1.0 when distFromFinish is at most 10,
  else 0.8 when at most 25, else 0.6 when at most 50, else 0.4 when at most 75, else
  0.2; and finalScore is rawScore times the multiplier.
\<close>

theorem position_multiplier:
  assumes "analyzeRoute points td = Inr r" and "c \<in> set (climbs_f r)"
  shows "distFromFinish c = td - endDist_c c \<and>
         multiplier c =
           (if distFromFinish c \<le> 10 then 1.0
            else if distFromFinish c \<le> 25 then 0.8
            else if distFromFinish c \<le> 50 then 0.6
            else if distFromFinish c \<le> 75 then 0.4
            else 0.2) \<and>
         finalScore c = rawScore c * multiplier c"
proof -
  from assms have "c \<in> set (validClimbs td (detectClimbs (chunkRoute points)))"
    by (simp add: analyzeRoute_climbs)
  then obtain g k where "c = scoreClimb td g k"
    by (auto simp: validClimbs_def)
  then show ?thesis by (simp add: scoreClimb_def Let_def)
qed

theorem position_multiplier_witness:
  "\<exists>r. analyzeRoute fiveClimbs 100 = Inr r \<and>
       map (\<lambda>c. (distFromFinish c, multiplier c)) (climbs_f r) =
         [(99, 0.2), (75, 0.4), (50, 0.6), (25, 0.8), (10, 1)] \<and>
       climbs_f r ! 1 \<in> set (climbs_f r) \<and>
       distFromFinish (climbs_f r ! 1) = 100 - endDist_c (climbs_f r ! 1) \<and>
       multiplier (climbs_f r ! 1) = 0.4 \<and>
       finalScore (climbs_f r ! 1) = rawScore (climbs_f r ! 1) * multiplier (climbs_f r ! 1)"
proof -
  have "fiveClimbs \<noteq> []" by (simp add: fiveClimbs_def)
  then obtain r where r: "analyzeRoute fiveClimbs 100 = Inr r"
    using analyzeRoute_returns by blast
  then have c: "climbs_f r = validClimbs 100 (detectClimbs (chunkRoute fiveClimbs))"
    by (rule analyzeRoute_climbs)
  have m: "map (\<lambda>c. (distFromFinish c, multiplier c)) (climbs_f r) =
         [(99, 0.2), (75, 0.4), (50, 0.6), (25, 0.8), (10, 1)]"
    unfolding c
    using arg_cong[OF fiveClimbs_valid, of "map (\<lambda>(a, b, c, d). (b, c))"]
    by (simp add: comp_def)
  have "length (climbs_f r) = length (map (\<lambda>c. (distFromFinish c, multiplier c)) (climbs_f r))"
    by simp
  also have "\<dots> = 5" unfolding m by simp
  finally have len: "length (climbs_f r) = 5" .
  then have i: "climbs_f r ! 1 \<in> set (climbs_f r)" by simp
  from len have "map (\<lambda>c. (distFromFinish c, multiplier c)) (climbs_f r) ! 1
      = (distFromFinish (climbs_f r ! 1), multiplier (climbs_f r ! 1))"
    by simp
  with m have v: "distFromFinish (climbs_f r ! 1) = 75" "multiplier (climbs_f r ! 1) = 0.4"
    by simp_all
  from position_multiplier[OF r i] v
  have "distFromFinish (climbs_f r ! 1) = 100 - endDist_c (climbs_f r ! 1)"
    and "finalScore (climbs_f r ! 1) = rawScore (climbs_f r ! 1) * multiplier (climbs_f r ! 1)"
    by simp_all
  with r m i v show ?thesis
    by - (intro conjI exI[of _ r]; assumption)
qed

text \<open>
  Claim C5. A chunk counts as uphill exactly when its gradient is strictly greater than
  1.5. A chunk that is not uphill, in particular one of gradient exactly 1.5, opens no
  climb when none is open and closes the open climb when there is one; an uphill chunk
  opens a climb or extends the open one.
\<close>

theorem uphill_threshold_strict:
  "(isUphill chunk \<longleftrightarrow> gradient chunk > 1.5) \<and>
   (gradient chunk = 1.5 \<longrightarrow>
      \<not> isUphill chunk \<and>
      climbStep (climbs, None) chunk = (climbs, None) \<and>
      climbStep (climbs, Some c) chunk = (climbs @ [c], None)) \<and>
   (gradient chunk \<le> 1.5 \<longrightarrow>
      climbStep (climbs, None) chunk = (climbs, None) \<and>
      climbStep (climbs, Some c) chunk = (climbs @ [c], None)) \<and>
   (gradient chunk > 1.5 \<longrightarrow>
      climbStep (climbs, None) chunk =
        (climbs, Some \<lparr> startDist_c = startDist chunk, endDist_c = endDist chunk,
                        gain_c = gain chunk, chunks_c = [chunk] \<rparr>) \<and>
      climbStep (climbs, Some c) chunk =
        (climbs, Some (c\<lparr> endDist_c := endDist chunk, gain_c := gain_c c + gain chunk,
                          chunks_c := chunks_c c @ [chunk] \<rparr>)))"
  by (simp add: isUphill_def climbStep_def)

theorem uphill_threshold_strict_witness:
  "map gradient (chunkRoute thresholdTrack) = [3, 1.5, 3] \<and>
   gradient (chunkRoute thresholdTrack ! 1) = 1.5 \<and>
   \<not> isUphill (chunkRoute thresholdTrack ! 1) \<and>
   climbStep ([], None) (chunkRoute thresholdTrack ! 1) = ([], None) \<and>
   map (\<lambda>g. (startDist_c g, endDist_c g)) (detectClimbs (chunkRoute thresholdTrack))
     = [(0, 1), (2, 3)]"
proof -
  have g: "map gradient (chunkRoute thresholdTrack) = [3, 1.5, 3]"
    by (simp add: thresholdTrack_def chunk_eval)
  have "length (chunkRoute thresholdTrack) = length (map gradient (chunkRoute thresholdTrack))"
    by simp
  also have "\<dots> = 3" unfolding g by simp
  finally have "map gradient (chunkRoute thresholdTrack) ! 1 = gradient (chunkRoute thresholdTrack ! 1)"
    by simp
  with g have e: "gradient (chunkRoute thresholdTrack ! 1) = 1.5" by simp
  have d: "map (\<lambda>g. (startDist_c g, endDist_c g)) (detectClimbs (chunkRoute thresholdTrack))
     = [(0, 1), (2, 3)]"
    by (simp add: thresholdTrack_def chunk_eval detect_eval)
  from uphill_threshold_strict[of "chunkRoute thresholdTrack ! 1" "[]"] e
  have "\<not> isUphill (chunkRoute thresholdTrack ! 1)"
    and "climbStep ([], None) (chunkRoute thresholdTrack ! 1) = ([], None)"
    by simp_all
  with g e d show ?thesis by simp
qed

lemma lapLoop_concat:
  "lapLoop baseData laps i fullPoints =
     fullPoints @ concat (map (lapCopy baseData) [i ..< laps])"
proof (induction "laps - i" arbitrary: i fullPoints)
  case 0
  then show ?case by (subst lapLoop.simps) simp
next
  case (Suc n)
  then have lt: "i < laps" and n: "n = laps - (i + 1)" by simp_all
  from lt have "lapLoop baseData laps i fullPoints
      = lapLoop baseData laps (i + 1) (fullPoints @ lapCopy baseData i)"
    by (subst lapLoop.simps) (simp add: Let_def lapCopy_def)
  also have "\<dots> = (fullPoints @ lapCopy baseData i)
      @ concat (map (lapCopy baseData) [i + 1 ..< laps])"
    using Suc.hyps(1)[OF n] .
  also from lt have "\<dots> = fullPoints @ concat (map (lapCopy baseData) [i ..< laps])"
    by (simp add: upt_conv_Cons)
  finally show ?case .
qed

lemma lapCopy_0: "lapCopy baseData 0 = points_b baseData"
  by (simp add: lapCopy_def)

text \<open>
  Claim C7. For every base track and every number of laps, the total distance of the
  expanded course is the base distance times the number of laps, and the expanded
  points are the laps in order, lap i being the base points with i times the base
  distance added to their distance and nothing else changed. With one lap the expanded
  points are the base points; with two laps the first half of the expanded points is
  the base points, unchanged. The recalculation leaves the base data and the number of
  laps of the state as they were.
\<close>

theorem lap_expansion:
  "snd (expandLaps baseData laps) = distance baseData * real laps \<and>
   fst (expandLaps baseData laps) = concat (map (lapCopy baseData) [0 ..< laps]) \<and>
   length (fst (expandLaps baseData laps)) = laps * length (points_b baseData) \<and>
   fst (expandLaps baseData 1) = points_b baseData \<and>
   take (length (points_b baseData)) (fst (expandLaps baseData 2)) = points_b baseData \<and>
   drop (length (points_b baseData)) (fst (expandLaps baseData 2)) = lapCopy baseData 1 \<and>
   (case recalculate st of
      Inl e \<Rightarrow> True
    | Inr st' \<Rightarrow> baseData_s st' = baseData_s st \<and> laps_s st' = laps_s st)"
proof (intro conjI)
  show "snd (expandLaps baseData laps) = distance baseData * real laps"
    by (simp add: expandLaps_def)
  show e: "fst (expandLaps baseData laps) = concat (map (lapCopy baseData) [0 ..< laps])"
    for laps
    by (simp add: expandLaps_def lapLoop_concat)
  have "length (lapCopy baseData i) = length (points_b baseData)" for i
    by (simp add: lapCopy_def)
  then show "length (fst (expandLaps baseData laps)) = laps * length (points_b baseData)"
    by (simp add: e length_concat comp_def sum_list_triv)
  show "fst (expandLaps baseData 1) = points_b baseData"
    by (simp add: e lapCopy_0)
  have two: "fst (expandLaps baseData 2) = points_b baseData @ lapCopy baseData 1"
    by (simp add: e lapCopy_0 upt_conv_Cons numeral_2_eq_2)
  show "take (length (points_b baseData)) (fst (expandLaps baseData 2)) = points_b baseData"
    by (simp add: two)
  show "drop (length (points_b baseData)) (fst (expandLaps baseData 2)) = lapCopy baseData 1"
    by (simp add: two)
  show "case recalculate st of
      Inl e \<Rightarrow> True
    | Inr st' \<Rightarrow> baseData_s st' = baseData_s st \<and> laps_s st' = laps_s st"
    by (auto simp: recalculate_def split: option.splits sum.splits prod.splits)
qed

text \<open>
  Claim C8, as amended. When the document has no track point, processGPX raises
  nothing: it writes its error to the console and returns. The base data, the number
  of laps and the analysis result of the state are what they were, so the
  recalculation is not run and no new result, whole or partial, is stored; a result of
  an earlier upload stays in place.
\<close>

theorem empty_track_logged:
  "processGPX st [] = (st\<lparr> isProcessing := False \<rparr>, [''No track points found in GPX file.'']) \<and>
   reader_onload st [] = Inr (st\<lparr> isProcessing := False \<rparr>) \<and>
   \<not> isl (reader_onload st []) \<and>
   baseData_s (fst (processGPX st [])) = baseData_s st \<and>
   fileData_s (fst (processGPX st [])) = fileData_s st \<and>
   laps_s (fst (processGPX st [])) = laps_s st"
  by (simp add: processGPX_def reader_onload_def)

lemma loadedState_result: "fileData_s loadedState \<noteq> None"
proof -
  let ?b = "\<lparr> points_b = scenarioB, distance = 50 \<rparr>"
  have e: "expandLaps ?b (Suc 0) = (scenarioB, 50)"
    by (simp add: expandLaps_def lapLoop_concat lapCopy_0)
  have "scenarioB \<noteq> []" by (simp add: scenarioB_def)
  then obtain r where r: "analyzeRoute scenarioB 50 = Inr r"
    using analyzeRoute_returns by blast
  show ?thesis
    by (simp add: loadedState_def recalculate_def initialState_def e r)
qed

text \<open>
  Claim C8, as stated, fails: an upload with no track point is no failure. The handler
  returns normally, with the line on the console as the only trace, and a state that
  holds the result of an earlier upload keeps it.
\<close>

theorem empty_track_counterexample:
  "reader_onload uploadingState [] = Inr initialState \<and>
   \<not> isl (reader_onload uploadingState []) \<and>
   snd (processGPX uploadingState []) = [''No track points found in GPX file.''] \<and>
   fileData_s loadedState \<noteq> None \<and>
   reader_onload loadedState [] = Inr (loadedState\<lparr> isProcessing := False \<rparr>) \<and>
   fileData_s (loadedState\<lparr> isProcessing := False \<rparr>) = fileData_s loadedState"
  using loadedState_result
  by (simp add: processGPX_def reader_onload_def uploadingState_def initialState_def)

text \<open>The expanded course of a base track that lies on its lap lies on the course.\<close>

lemma lapCopy_range:
  assumes "list_all (\<lambda>p. 0 \<le> dist_p p \<and> dist_p p \<le> distance baseData) (points_b baseData)"
    and "p \<in> set (lapCopy baseData i)"
  shows "real i * distance baseData \<le> dist_p p \<and> dist_p p \<le> real (Suc i) * distance baseData"
proof -
  from assms(2) obtain q where q: "q \<in> set (points_b baseData)"
    "p = q\<lparr> dist_p := dist_p q + real i * distance baseData \<rparr>"
    by (auto simp: lapCopy_def)
  with assms(1) have "0 \<le> dist_p q" "dist_p q \<le> distance baseData"
    by (simp_all add: list_all_iff)
  with q(2) show ?thesis by (simp add: algebra_simps)
qed

lemma lapCopy_nondecreasing:
  "nondecreasing (points_b baseData) \<Longrightarrow> nondecreasing (lapCopy baseData i)"
  by (simp add: nondecreasing_def lapCopy_def comp_def sorted_map sorted_wrt_map)

lemma laps_onCourse:
  assumes nd: "nondecreasing (points_b baseData)"
    and rng: "list_all (\<lambda>p. 0 \<le> dist_p p \<and> dist_p p \<le> distance baseData) (points_b baseData)"
    and d: "0 \<le> distance baseData"
  shows "onCourse (concat (map (lapCopy baseData) [0 ..< n])) (distance baseData * real n)"
proof (induction n)
  case 0
  then show ?case by (simp add: onCourse_def nondecreasing_def)
next
  case (Suc n)
  let ?xs = "concat (map (lapCopy baseData) [0 ..< n])"
  let ?ys = "lapCopy baseData n"
  from Suc have sx: "sorted (map dist_p ?xs)"
    and rx: "\<forall>p \<in> set ?xs. 0 \<le> dist_p p \<and> dist_p p \<le> distance baseData * real n"
    by (simp_all add: onCourse_def nondecreasing_def list_all_iff)
  from nd have sy: "sorted (map dist_p ?ys)"
    using lapCopy_nondecreasing[of baseData n] by (simp add: nondecreasing_def)
  have ry: "\<forall>p \<in> set ?ys. real n * distance baseData \<le> dist_p p \<and>
                dist_p p \<le> real (Suc n) * distance baseData"
    using lapCopy_range[OF rng] by blast
  have "sorted (map dist_p (?xs @ ?ys))"
    using sx sy rx ry by (fastforce simp: sorted_append mult.commute)
  moreover have "\<forall>p \<in> set (?xs @ ?ys). 0 \<le> dist_p p \<and> dist_p p \<le> distance baseData * real (Suc n)"
  proof
    fix p assume "p \<in> set (?xs @ ?ys)"
    then consider "p \<in> set ?xs" | "p \<in> set ?ys" by auto
    then show "0 \<le> dist_p p \<and> dist_p p \<le> distance baseData * real (Suc n)"
    proof cases
      case 1
      with rx have "0 \<le> dist_p p" "dist_p p \<le> distance baseData * real n" by blast+
      moreover from d have "distance baseData * real n \<le> distance baseData * real (Suc n)"
        by (simp add: algebra_simps)
      ultimately show ?thesis by simp
    next
      case 2
      with ry have "real n * distance baseData \<le> dist_p p"
        "dist_p p \<le> real (Suc n) * distance baseData" by blast+
      moreover from d have "0 \<le> real n * distance baseData" by simp
      ultimately show ?thesis by (simp add: mult.commute)
    qed
  qed
  ultimately show ?case
    by (simp add: onCourse_def nondecreasing_def list_all_iff)
qed

lemma expandLaps_onCourse:
  assumes "nondecreasing (points_b baseData)"
    and "list_all (\<lambda>p. 0 \<le> dist_p p \<and> dist_p p \<le> distance baseData) (points_b baseData)"
    and "0 \<le> distance baseData"
  shows "onCourse (fst (expandLaps baseData laps)) (snd (expandLaps baseData laps))"
  using laps_onCourse[OF assms, of laps]
  by (simp add: expandLaps_def lapLoop_concat)

lemma analyzeRoute_tpv_returns_if:
  assumes "points \<noteq> []"
    and "\<not> (\<exists>c \<in> set (validClimbs_tpv td (detectClimbs (chunkRoute points))). lengthKm c = 0)"
  shows "\<exists>r. analyzeRoute_tpv points td = Inr r"
proof -
  from assms(1) obtain mx mn where "Math_max (map ele points) = Some mx"
    "Math_min (map ele points) = Some mn"
    by (cases points) (simp_all add: Math_max_def Math_min_def)
  then show ?thesis
    unfolding analyzeRoute_tpv_def Let_def if_not_P[OF assms(2)] by simp
qed

lemma analyzeRoute_tpv_returns:
  assumes "nondecreasing points" and "points \<noteq> []"
  shows "\<exists>r. analyzeRoute_tpv points td = Inr r"
proof -
  from assms(1) have "climbsOrdered (validClimbs_tpv td (detectClimbs (chunkRoute points)))"
    by (intro validClimbs_tpv_ordered detect_route_ordered)
  then have "\<forall>c \<in> set (validClimbs_tpv td (detectClimbs (chunkRoute points))).
               startDist_c c + CHUNK_SIZE \<le> endDist_c c"
    by (simp add: climbsOrdered_def list_all_iff)
  moreover have "\<forall>c \<in> set (validClimbs_tpv td (detectClimbs (chunkRoute points))).
               lengthKm c = endDist_c c - startDist_c c"
    by (auto simp: validClimbs_tpv_def scoreClimb_tpv_sel)
  ultimately have
    "\<not> (\<exists>c \<in> set (validClimbs_tpv td (detectClimbs (chunkRoute points))). lengthKm c = 0)"
    by (fastforce simp: CHUNK_SIZE_def)
  with assms(2) show ?thesis by (rule analyzeRoute_tpv_returns_if)
qed

lemma finalScore_tpv_nonneg:
  assumes "startDist_c g \<le> endDist_c g"
  shows "0 \<le> finalScore (scoreClimb_tpv td g)"
proof -
  have "0 \<le> rawScore (scoreClimb_tpv td g)"
    using assms by (simp add: scoreClimb_tpv_def Let_def)
  moreover have "0 \<le> multiplier (scoreClimb_tpv td g)"
    by (simp add: scoreClimb_tpv_def Let_def)
  ultimately show ?thesis by (simp add: scoreClimb_tpv_sel(7))
qed

lemma validClimbs_tpv_nonneg:
  assumes "climbsOrdered gs" and "c \<in> set (validClimbs_tpv td gs)"
  shows "0 \<le> finalScore c"
proof -
  from assms(2) obtain g where g: "g \<in> set gs" "c = scoreClimb_tpv td g"
    by (auto simp: validClimbs_tpv_def)
  with assms(1) have "startDist_c g + CHUNK_SIZE \<le> endDist_c g"
    by (simp add: climbsOrdered_def list_all_iff)
  then have "startDist_c g \<le> endDist_c g" by (simp add: CHUNK_SIZE_def)
  with g show ?thesis by (simp add: finalScore_tpv_nonneg)
qed

lemma chunkRoute_empty_if_flat:
  assumes "list_all (\<lambda>p. 0 \<le> dist_p p \<and> dist_p p \<le> td) points" and "td \<le> 0"
  shows "chunkRoute points = []"
proof (rule ccontr)
  assume "chunkRoute points \<noteq> []"
  then have "hd (chunkRoute points) \<in> set (chunkLoop points 0 [])"
    by (simp add: chunkRoute_def)
  then obtain a b where ab: "a < b" "b < length points"
    "CHUNK_SIZE \<le> dist_p (points ! b) - dist_p (points ! a)"
    using chunkLoop_chunks by blast
  with assms have "dist_p (points ! b) \<le> td" "0 \<le> dist_p (points ! a)"
    by (simp_all add: list_all_length)
  with assms(2) have "dist_p (points ! b) \<le> 0" "0 \<le> dist_p (points ! a)"
    by simp_all
  with ab(3) show False by (simp add: CHUNK_SIZE_def)
qed

text \<open>
  Claim C1. For a track that lies on its course (cumulative distance never decreasing,
  between 0 and the total distance) the analysis returns a result, in which the total
  score is the sum of the final scores of the climbs, the final zone score is that sum
  over the climbs ending in the last 25 km, and the climb weighting is
  min(ratio * 100, 100) with ratio = total score / total distance when
  0 < total distance < 20 and max(total score / 100, min(final zone score / 25, 0.8))
  otherwise; the climb weighting lies between 0 and 100.
\<close>

theorem climb_weighting:
  assumes oc: "onCourse points td" and ne: "points \<noteq> []"
  shows "\<exists>r. analyzeRoute_tpv points td = Inr r \<and>
           totalScore_t r = sum_list (map finalScore (climbs_t r)) \<and>
           finalProfileScore_t r =
             sum_list (map finalScore (filter (\<lambda>c. endDist_c c \<ge> td - 25) (climbs_t r))) \<and>
           tpvClimbWeighting r =
             min ((if 0 < td \<and> td < 20 then totalScore_t r / td
                   else max (totalScore_t r / 100) (min (finalProfileScore_t r / 25) 0.8)) * 100)
                 100 \<and>
           0 \<le> tpvClimbWeighting r \<and> tpvClimbWeighting r \<le> 100"
proof -
  from oc have nd: "nondecreasing points"
    and rng: "list_all (\<lambda>p. 0 \<le> dist_p p \<and> dist_p p \<le> td) points"
    by (simp_all add: onCourse_def)
  from analyzeRoute_tpv_returns[OF nd ne] obtain r where r: "analyzeRoute_tpv points td = Inr r"
    by blast
  note f = analyzeRoute_tpv_fields[OF r]
  let ?gs = "detectClimbs (chunkRoute points)"
  have ts: "totalScore_t r = sum_list (map finalScore (climbs_t r))"
    by (simp add: f(2) foldl_finalScore)
  have fs: "finalProfileScore_t r =
      sum_list (map finalScore (filter (\<lambda>c. endDist_c c \<ge> td - 25) (climbs_t r)))"
    by (simp add: f(3) foldl_finalScore)
  have nn: "0 \<le> finalScore c" if "c \<in> set (climbs_t r)" for c
    using that detect_route_ordered[OF nd] validClimbs_tpv_nonneg[of ?gs c td]
    by (simp add: f(1))
  have ts0: "0 \<le> totalScore_t r"
    unfolding ts by (rule sum_list_nonneg) (auto simp: nn)
  have fz: "finalProfileScore_t r = 0" if "td \<le> 0"
  proof -
    from rng that have "chunkRoute points = []" by (rule chunkRoute_empty_if_flat)
    then have "climbs_t r = []"
      by (simp add: f(1) validClimbs_tpv_def detectClimbs_def flushClimb_def)
    then show ?thesis by (simp add: fs)
  qed
  have w: "tpvClimbWeighting r =
             min ((if 0 < td \<and> td < 20 then totalScore_t r / td
                   else max (totalScore_t r / 100) (min (finalProfileScore_t r / 25) 0.8)) * 100)
                 100"
    using fz by (cases "td > 0") (simp_all add: f(4))
  have lo: "0 \<le> tpvClimbWeighting r"
    unfolding w using ts0 by (auto simp: min_def max_def)
  have hi: "tpvClimbWeighting r \<le> 100"
    unfolding w by simp
  from r ts fs w lo hi show ?thesis
    by - (intro conjI exI[of _ r]; assumption)
qed

lemma fiveClimbs_onCourse: "onCourse fiveClimbs 100"
  by (simp add: onCourse_def nondecreasing_def fiveClimbs_def pt_def)

lemma fiveClimbs_tpv_scores:
  "sum_list (map finalScore (validClimbs_tpv 100 (detectClimbs (chunkRoute fiveClimbs)))) = 6.75"
  "sum_list (map finalScore (filter (\<lambda>c. endDist_c c \<ge> 100 - 25)
      (validClimbs_tpv 100 (detectClimbs (chunkRoute fiveClimbs))))) = 4.05"
  by (simp_all add: fiveClimbs_def chunk_eval detect_eval validClimbs_tpv_def scoreClimb_tpv_def
      power2_eq_square)

theorem climb_weighting_witness:
  "onCourse fiveClimbs 100 \<and> fiveClimbs \<noteq> [] \<and>
   (\<exists>r. analyzeRoute_tpv fiveClimbs 100 = Inr r \<and>
        totalScore_t r = 6.75 \<and> finalProfileScore_t r = 4.05 \<and>
        tpvClimbWeighting r = 16.2 \<and>
        0 \<le> tpvClimbWeighting r \<and> tpvClimbWeighting r \<le> 100)"
proof -
  have ne: "fiveClimbs \<noteq> []" by (simp add: fiveClimbs_def)
  from climb_weighting[OF fiveClimbs_onCourse ne] obtain r where
    r: "analyzeRoute_tpv fiveClimbs 100 = Inr r"
    and ts: "totalScore_t r = sum_list (map finalScore (climbs_t r))"
    and fs: "finalProfileScore_t r =
             sum_list (map finalScore (filter (\<lambda>c. endDist_c c \<ge> 100 - 25) (climbs_t r)))"
    and w: "tpvClimbWeighting r =
             min ((if (0::real) < 100 \<and> (100::real) < 20 then totalScore_t r / 100
                   else max (totalScore_t r / 100) (min (finalProfileScore_t r / 25) 0.8)) * 100)
                 100"
    and b: "0 \<le> tpvClimbWeighting r" "tpvClimbWeighting r \<le> 100"
    by blast
  have c: "climbs_t r = validClimbs_tpv 100 (detectClimbs (chunkRoute fiveClimbs))"
    using r by (rule analyzeRoute_tpv_fields(1))
  have ts': "totalScore_t r = 6.75" unfolding ts c by (rule fiveClimbs_tpv_scores(1))
  have fs': "finalProfileScore_t r = 4.05" unfolding fs c by (rule fiveClimbs_tpv_scores(2))
  have w': "tpvClimbWeighting r = 16.2" unfolding w ts' fs' by simp
  from fiveClimbs_onCourse ne r ts' fs' w' b show ?thesis
    by - (intro conjI exI[of _ r]; assumption)
qed

text \<open>
  Claim C2, as amended. When the track is not empty and the detection finds one climb,
  from km 45 to km 50 with a gain of 250 m, on a course of 50 km, both analyses score
  it with length 5, average gradient 5, rawScore (5/2)^2 * 5 = 31.25, multiplier 1 and
  finalScore 31.25; the total score is 31.25 and the climb weighting is 80.
\<close>

theorem scenarioB_scores:
  assumes ne: "points \<noteq> []"
    and d: "detectClimbs (chunkRoute points) = [g]"
    and g: "startDist_c g = 45" "endDist_c g = 50" "gain_c g = 250"
  shows "(\<exists>r. analyzeRoute_tpv points 50 = Inr r \<and>
             map (\<lambda>c. (lengthKm c, gradientAvg c, rawScore c, multiplier c, finalScore c))
               (climbs_t r) = [(5, 5, 31.25, 1, 31.25)] \<and>
             totalScore_t r = 31.25 \<and> tpvClimbWeighting r = 80) \<and>
         (\<exists>r. analyzeRoute points 50 = Inr r \<and>
             map (\<lambda>c. (lengthKm c, gradientAvg c, rawScore c, multiplier c, finalScore c))
               (climbs_f r) = [(5, 5, 31.25, 1, 31.25)] \<and>
             totalScore_f r = 31.25)"
proof
  have v: "validClimbs_tpv 50 (detectClimbs (chunkRoute points)) = [scoreClimb_tpv 50 g]"
    by (simp add: d g validClimbs_tpv_def)
  have s: "lengthKm (scoreClimb_tpv 50 g) = 5" "gradientAvg (scoreClimb_tpv 50 g) = 5"
    "rawScore (scoreClimb_tpv 50 g) = 31.25" "multiplier (scoreClimb_tpv 50 g) = 1"
    "finalScore (scoreClimb_tpv 50 g) = 31.25" "endDist_c (scoreClimb_tpv 50 g) = 50"
    by (simp_all add: scoreClimb_tpv_def Let_def g power2_eq_square)
  have "\<not> (\<exists>c \<in> set (validClimbs_tpv 50 (detectClimbs (chunkRoute points))). lengthKm c = 0)"
    by (simp add: v s)
  with ne obtain r where r: "analyzeRoute_tpv points 50 = Inr r"
    using analyzeRoute_tpv_returns_if by blast
  note f = analyzeRoute_tpv_fields[OF r]
  have c: "climbs_t r = [scoreClimb_tpv 50 g]" by (simp add: f(1) v)
  have m: "map (\<lambda>c. (lengthKm c, gradientAvg c, rawScore c, multiplier c, finalScore c))
               (climbs_t r) = [(5, 5, 31.25, 1, 31.25)]"
    by (simp add: c s)
  have t: "totalScore_t r = 31.25" by (simp add: f(2) c s)
  have z: "finalProfileScore_t r = 31.25" by (simp add: f(3) c s)
  have w: "tpvClimbWeighting r = 80" by (simp add: f(4) t z)
  from r m t w show "\<exists>r. analyzeRoute_tpv points 50 = Inr r \<and>
             map (\<lambda>c. (lengthKm c, gradientAvg c, rawScore c, multiplier c, finalScore c))
               (climbs_t r) = [(5, 5, 31.25, 1, 31.25)] \<and>
             totalScore_t r = 31.25 \<and> tpvClimbWeighting r = 80"
    by - (intro conjI exI[of _ r]; assumption)
next
  have v: "validClimbs 50 (detectClimbs (chunkRoute points)) = [scoreClimb 50 g 0]"
    by (simp add: d g validClimbs_def enumerate_eq_zip)
  have s: "lengthKm (scoreClimb 50 g 0) = 5" "gradientAvg (scoreClimb 50 g 0) = 5"
    "rawScore (scoreClimb 50 g 0) = 31.25" "multiplier (scoreClimb 50 g 0) = 1"
    "finalScore (scoreClimb 50 g 0) = 31.25"
    by (simp_all add: scoreClimb_def Let_def g power2_eq_square)
  from ne obtain r where r: "analyzeRoute points 50 = Inr r"
    using analyzeRoute_returns by blast
  note f = analyzeRoute_fields[OF r]
  have c: "climbs_f r = [scoreClimb 50 g 0]" by (simp add: f(1) v)
  have m: "map (\<lambda>c. (lengthKm c, gradientAvg c, rawScore c, multiplier c, finalScore c))
               (climbs_f r) = [(5, 5, 31.25, 1, 31.25)]"
    by (simp add: c s)
  have t: "totalScore_f r = 31.25" by (simp add: f(2) c s)
  from r m t show "\<exists>r. analyzeRoute points 50 = Inr r \<and>
             map (\<lambda>c. (lengthKm c, gradientAvg c, rawScore c, multiplier c, finalScore c))
               (climbs_f r) = [(5, 5, 31.25, 1, 31.25)] \<and>
             totalScore_f r = 31.25"
    by - (intro conjI exI[of _ r]; assumption)
qed

lemma scenarioB_detect:
  "map (\<lambda>g. (startDist_c g, endDist_c g, gain_c g)) (detectClimbs (chunkRoute scenarioB))
     = [(45, 50, 250)]"
  by (simp add: scenarioB_def chunk_eval detect_eval)

theorem scenarioB_scores_witness:
  "scenarioB \<noteq> [] \<and>
   map (\<lambda>g. (startDist_c g, endDist_c g, gain_c g)) (detectClimbs (chunkRoute scenarioB))
     = [(45, 50, 250)] \<and>
   (\<exists>r. analyzeRoute_tpv scenarioB 50 = Inr r \<and>
        map (\<lambda>c. (lengthKm c, gradientAvg c, rawScore c, multiplier c, finalScore c))
          (climbs_t r) = [(5, 5, 31.25, 1, 31.25)] \<and>
        totalScore_t r = 31.25 \<and> tpvClimbWeighting r = 80)"
proof -
  have ne: "scenarioB \<noteq> []" by (simp add: scenarioB_def)
  from scenarioB_detect obtain g where d: "detectClimbs (chunkRoute scenarioB) = [g]"
    and g: "startDist_c g = 45" "endDist_c g = 50" "gain_c g = 250"
    by auto
  from scenarioB_scores[OF ne d g] ne scenarioB_detect show ?thesis by blast
qed

text \<open>
  Claim C2, as stated, fails: on the track of the scenario the raw score, the final
  score and the total score are 31.25, not 62.5.
\<close>

theorem scenarioB_counterexample:
  "scoreTable (analyzeRoute_tpv scenarioB 50) = Some ([(31.25, 1, 31.25)], 31.25, 80) \<and>
   scoreTable (analyzeRoute_tpv scenarioB 50) \<noteq> Some ([(62.5, 1, 62.5)], 62.5, 80)"
proof -
  have ne: "scenarioB \<noteq> []" by (simp add: scenarioB_def)
  from scenarioB_detect obtain g where d: "detectClimbs (chunkRoute scenarioB) = [g]"
    and g: "startDist_c g = 45" "endDist_c g = 50" "gain_c g = 250"
    by auto
  have v: "validClimbs_tpv 50 (detectClimbs (chunkRoute scenarioB)) = [scoreClimb_tpv 50 g]"
    by (simp add: d g validClimbs_tpv_def)
  have s: "lengthKm (scoreClimb_tpv 50 g) = 5"
    "rawScore (scoreClimb_tpv 50 g) = 31.25" "multiplier (scoreClimb_tpv 50 g) = 1"
    "finalScore (scoreClimb_tpv 50 g) = 31.25" "endDist_c (scoreClimb_tpv 50 g) = 50"
    by (simp_all add: scoreClimb_tpv_def Let_def g power2_eq_square)
  have "\<not> (\<exists>c \<in> set (validClimbs_tpv 50 (detectClimbs (chunkRoute scenarioB))). lengthKm c = 0)"
    by (simp add: v s)
  with ne obtain r where r: "analyzeRoute_tpv scenarioB 50 = Inr r"
    using analyzeRoute_tpv_returns_if by blast
  note f = analyzeRoute_tpv_fields[OF r]
  have c: "climbs_t r = [scoreClimb_tpv 50 g]" by (simp add: f(1) v)
  have t: "totalScore_t r = 31.25" by (simp add: f(2) c s)
  have z: "finalProfileScore_t r = 31.25" by (simp add: f(3) c s)
  have w: "tpvClimbWeighting r = 80" by (simp add: f(4) t z)
  show ?thesis by (simp add: scoreTable_def r c s t w)
qed

end
